theory Spec2Isabelle
  imports Complex_Main "HOL-Library.AList" "HOL-Library.Char_ord" "HOL-Library.List_Lexorder"
begin

section \<open>Paths and the file system snapshot\<close>

text \<open>
  A path is the list of its components from the root; \<open>directory / name\<close> of pathlib
  appends one component. The names handed to the organizer come from \<open>Path.name\<close>, so
  they are single components.
\<close>

type_synonym path = "string list"

definition joinpath :: "path \<Rightarrow> string \<Rightarrow> path" where
  "joinpath directory name = directory @ [name]"

definition path_name :: "path \<Rightarrow> string" where
  "path_name p = (if p = [] then [] else last p)"

definition path_parent :: "path \<Rightarrow> path" where
  "path_parent p = butlast p"

text \<open>\<open>str.rfind('.')\<close>: the index of the last dot, \<open>None\<close> for Python's \<open>-1\<close>.\<close>

fun rfind_dot :: "string \<Rightarrow> nat option" where
  "rfind_dot [] = None"
| "rfind_dot (c # cs) =
     (case rfind_dot cs of
        Some i \<Rightarrow> Some (Suc i)
      | None \<Rightarrow> (if c = CHR ''.'' then Some 0 else None))"

text \<open>
  \<open>PurePath.suffix\<close> and \<open>PurePath.stem\<close>: the name is split at its last dot when
  that dot is neither the first nor the last character of the name.
\<close>

definition path_suffix :: "string \<Rightarrow> string" where
  "path_suffix name =
     (case rfind_dot name of
        None \<Rightarrow> []
      | Some i \<Rightarrow> (if 0 < i \<and> i + 1 < length name then drop i name else []))"

definition path_stem :: "string \<Rightarrow> string" where
  "path_stem name =
     (case rfind_dot name of
        None \<Rightarrow> name
      | Some i \<Rightarrow> (if 0 < i \<and> i + 1 < length name then take i name else name))"

text \<open>Decimal rendering of an integer, as \<open>f"{i}"\<close> does.\<close>

definition digit_char :: "nat \<Rightarrow> char" where
  "digit_char d = ''0123456789'' ! d"

function str_nat :: "nat \<Rightarrow> string" where
  "str_nat n = (if n < 10 then [digit_char n] else str_nat (n div 10) @ [digit_char (n mod 10)])"
  by pat_completeness auto
termination
  by (relation "measure id") auto

declare str_nat.simps [simp del]

definition str_int :: "int \<Rightarrow> string" where
  "str_int i = (if i < 0 then CHR ''-'' # str_nat (nat (- i)) else str_nat (nat i))"

text \<open>
  The file system at one moment: an association list from paths to nodes (its order is
  the order in which \<open>iterdir\<close> lists entries), and the paths on which the operating
  system refuses a rename (a permission error, a vanished source).
\<close>

datatype 'a node = File 'a | Dir

record 'a filesystem =
  entries :: "(path \<times> 'a node) list"
  denied :: "path list"

definition lookup :: "'a filesystem \<Rightarrow> path \<Rightarrow> 'a node option" where
  "lookup fs p = map_of (entries fs) p"

definition path_exists :: "'a filesystem \<Rightarrow> path \<Rightarrow> bool" where
  "path_exists fs p = (case lookup fs p of None \<Rightarrow> False | Some _ \<Rightarrow> True)"

definition is_dir :: "'a filesystem \<Rightarrow> path \<Rightarrow> bool" where
  "is_dir fs p = (case lookup fs p of Some Dir \<Rightarrow> True | _ \<Rightarrow> False)"

definition is_file :: "'a filesystem \<Rightarrow> path \<Rightarrow> bool" where
  "is_file fs p = (case lookup fs p of Some (File _) \<Rightarrow> True | _ \<Rightarrow> False)"

definition iterdir :: "'a filesystem \<Rightarrow> path \<Rightarrow> path list" where
  "iterdir fs directory =
     [p \<leftarrow> map fst (entries fs). p \<noteq> [] \<and> path_parent p = directory]"

section \<open>\<open>FileOperations.get_unique_filename\<close>\<close>

definition suffixed_name :: "string \<Rightarrow> string \<Rightarrow> int \<Rightarrow> string" where
  "suffixed_name stem suffix i = stem @ ''_'' @ str_int i @ suffix"

definition final_name :: "string \<Rightarrow> string \<Rightarrow> string" where
  "final_name stem suffix = stem @ ''_final'' @ suffix"

text \<open>
  The loop \<open>for i in range(1, max_suffix + 1)\<close>, entered at \<open>i\<close>, followed by the
  fallback \<open>return directory / f"{stem}_final{suffix}"\<close>.
\<close>

function try_suffixes ::
  "'a filesystem \<Rightarrow> path \<Rightarrow> string \<Rightarrow> string \<Rightarrow> int \<Rightarrow> int \<Rightarrow> path" where
  "try_suffixes fs directory stem suffix i max_suffix =
     (if max_suffix < i then joinpath directory (final_name stem suffix)
      else
        (let new_path = joinpath directory (suffixed_name stem suffix i) in
         if \<not> path_exists fs new_path then new_path
         else try_suffixes fs directory stem suffix (i + 1) max_suffix))"
  by pat_completeness auto
termination
  by (relation "measure (\<lambda>(fs, directory, stem, suffix, i, max_suffix). nat (max_suffix + 1 - i))")
    auto

declare try_suffixes.simps [simp del]

definition get_unique_filename :: "'a filesystem \<Rightarrow> path \<Rightarrow> string \<Rightarrow> int \<Rightarrow> path" where
  "get_unique_filename fs directory filename max_suffix =
     (let base_path = joinpath directory filename in
      if \<not> path_exists fs base_path then base_path
      else
        (let stem = path_stem (path_name base_path);
             suffix = path_suffix (path_name base_path)
         in try_suffixes fs directory stem suffix 1 max_suffix))"

section \<open>Configuration (\<open>AppConfig\<close>)\<close>

record app_config =
  file_extensions :: "(string \<times> string list) list"
  log_file :: path
  max_duplicate_suffix :: int

definition get_default :: app_config where
  "get_default =
     \<lparr> file_extensions =
         [(''documents'', [''.pdf'', ''.doc'', ''.docx'', ''.txt'', ''.odt'']),
          (''images'', [''.jpg'', ''.jpeg'', ''.png'', ''.gif'', ''.bmp'', ''.svg'']),
          (''videos'', [''.mp4'', ''.avi'', ''.mkv'', ''.mov'', ''.flv'']),
          (''audio'', [''.mp3'', ''.wav'', ''.flac'', ''.aac'', ''.ogg'']),
          (''archives'', [''.zip'', ''.rar'', ''.7z'', ''.tar'', ''.gz'']),
          (''spreadsheets'', [''.xls'', ''.xlsx'', ''.csv'']),
          (''code'', [''.py'', ''.java'', ''.js'', ''.go'', ''.cpp'', ''.c'', ''.h''])],
       log_file = [''automation.log''],
       max_duplicate_suffix = 9999 \<rparr>"

section \<open>File operations (\<open>FileOperations\<close>)\<close>

datatype os_error =
  FileExistsError | FileNotFoundError | NotADirectoryError | IsADirectoryError
  | PermissionError | ShutilError

text \<open>\<open>os.mkdir\<close>: creates one directory whose parent is an existing directory.\<close>

definition os_mkdir :: "'a filesystem \<Rightarrow> path \<Rightarrow> os_error + 'a filesystem" where
  "os_mkdir fs p =
     (if path_exists fs p then Inl FileExistsError
      else if p = [] then Inl FileNotFoundError
      else
        (case lookup fs (path_parent p) of
           None \<Rightarrow> Inl FileNotFoundError
         | Some (File _) \<Rightarrow> Inl NotADirectoryError
         | Some Dir \<Rightarrow> Inr (fs\<lparr>entries := entries fs @ [(p, Dir)]\<rparr>)))"

text \<open>
  \<open>Path.mkdir(parents=True, exist_ok=True)\<close>: a missing parent is created first; an
  existing directory is accepted; an existing file at the path raises.
\<close>

function ensure_directory :: "'a filesystem \<Rightarrow> path \<Rightarrow> os_error + 'a filesystem" where
  "ensure_directory fs p =
     (case os_mkdir fs p of
        Inr fs' \<Rightarrow> Inr fs'
      | Inl e \<Rightarrow>
          (if e = FileNotFoundError then
             (if p = [] then Inl FileNotFoundError
              else
                (case ensure_directory fs (path_parent p) of
                   Inl e' \<Rightarrow> Inl e'
                 | Inr fs' \<Rightarrow>
                     (case os_mkdir fs' p of
                        Inr fs'' \<Rightarrow> Inr fs''
                      | Inl e'' \<Rightarrow> (if is_dir fs' p then Inr fs' else Inl e''))))
           else (if is_dir fs p then Inr fs else Inl e)))"
  by pat_completeness auto
termination
  by (relation "measure (\<lambda>(fs, p). length p)") (auto simp: path_parent_def)

declare ensure_directory.simps [simp del]

definition get_files_in_directory :: "'a filesystem \<Rightarrow> path \<Rightarrow> bool \<Rightarrow> path list" where
  "get_files_in_directory fs directory recursive =
     (if \<not> path_exists fs directory \<or> \<not> is_dir fs directory then []
      else if recursive then
        [f \<leftarrow> map fst (entries fs). length directory < length f
           \<and> take (length directory) f = directory \<and> is_file fs f]
      else [f \<leftarrow> iterdir fs directory. is_file fs f])"

text \<open>
  \<open>os.rename\<close> of a regular file: it replaces an existing file at the destination.
  The organizer only moves entries for which \<open>is_file\<close> held, so a source that is a
  directory does not occur; the model refuses it.
\<close>

definition os_rename :: "'a filesystem \<Rightarrow> path \<Rightarrow> path \<Rightarrow> os_error + 'a filesystem" where
  "os_rename fs src dst =
     (case lookup fs src of
        Some (File c) \<Rightarrow>
          (if src \<in> set (denied fs) then Inl PermissionError
           else
             (case lookup fs (path_parent dst) of
                Some Dir \<Rightarrow>
                  (if is_dir fs dst then Inl IsADirectoryError
                   else Inr (fs\<lparr>entries :=
                     AList.update dst (File c) (AList.delete src (entries fs))\<rparr>))
              | Some (File _) \<Rightarrow> Inl NotADirectoryError
              | None \<Rightarrow> Inl FileNotFoundError))
      | _ \<Rightarrow> Inl FileNotFoundError)"

text \<open>
  \<open>shutil.move\<close>: a destination that is an existing directory receives the source
  inside it, unless that name is taken there.
\<close>

definition shutil_move :: "'a filesystem \<Rightarrow> path \<Rightarrow> path \<Rightarrow> os_error + 'a filesystem" where
  "shutil_move fs src dst =
     (if is_dir fs dst then
        (let real_dst = joinpath dst (path_name src) in
         if path_exists fs real_dst then Inl ShutilError
         else os_rename fs src real_dst)
      else os_rename fs src dst)"

definition move_file :: "'a filesystem \<Rightarrow> path \<Rightarrow> path \<Rightarrow> bool \<times> 'a filesystem" where
  "move_file fs source destination =
     (case shutil_move fs source destination of
        Inr fs' \<Rightarrow> (True, fs')
      | Inl _ \<Rightarrow> (False, fs))"

section \<open>The file organizer (\<open>FileOrganizer\<close>)\<close>

text \<open>\<open>str.lower\<close> on the ASCII letters.\<close>

definition lower_char :: "char \<Rightarrow> char" where
  "lower_char c =
     (case map_of (zip ''ABCDEFGHIJKLMNOPQRSTUVWXYZ'' ''abcdefghijklmnopqrstuvwxyz'') c of
        Some l \<Rightarrow> l
      | None \<Rightarrow> c)"

definition lower :: "string \<Rightarrow> string" where
  "lower s = map lower_char s"

text \<open>
  \<open>_build_extension_map\<close>: the dictionary from extension to category, filled in the
  order of the configuration; a later category overwrites an earlier one.
\<close>

definition build_extension_map :: "app_config \<Rightarrow> (string \<times> string) list" where
  "build_extension_map config =
     fold (\<lambda>(category, extensions) extension_map.
             fold (\<lambda>ext m. AList.update (lower ext) category m) extensions extension_map)
       (file_extensions config) []"

definition get_file_category :: "(string \<times> string) list \<Rightarrow> path \<Rightarrow> string" where
  "get_file_category extension_map file_path =
     (let extension = lower (path_suffix (path_name file_path)) in
      case map_of extension_map extension of
        Some category \<Rightarrow> category
      | None \<Rightarrow> ''other'')"

text \<open>
  The lines the organizer logs. An entry keeps the paths its message is formatted from:
  \<open>Info_moved file_path category target_path\<close> is the line
  \<open>Moved {file_path.name} -> {category}/{target_path.name}\<close>.
\<close>

datatype log_entry =
    Error_directory_missing path
  | Info_starting path
  | Debug_skipping string
  | Info_moved path string path
  | Error_move_failed string
  | Info_complete nat
  | Info_category_count string nat

definition log_statistics :: "(string \<times> nat) list \<Rightarrow> log_entry list" where
  "log_statistics stats =
     Info_complete (sum_list (map snd stats))
     # map (\<lambda>(category, count). Info_category_count category count) (sort_key fst stats)"

text \<open>
  The state the loop of \<open>organize_directory\<close> works on: the file system, the
  dictionary \<open>stats\<close>, the set \<open>processed_files\<close> and the log written so far.
\<close>

record 'a organizer_state =
  o_fs :: "'a filesystem"
  o_stats :: "(string \<times> nat) list"
  o_processed :: "path list"
  o_log :: "log_entry list"

definition bump_stat :: "string \<Rightarrow> (string \<times> nat) list \<Rightarrow> (string \<times> nat) list" where
  "bump_stat category stats =
     AList.update category ((case map_of stats category of None \<Rightarrow> 0 | Some n \<Rightarrow> n) + 1) stats"

text \<open>One iteration of \<open>for file_path in files\<close>; \<open>Inl\<close> is an exception that leaves
  \<open>organize_directory\<close> (only \<open>ensure_directory\<close> can raise one).\<close>

definition organize_file ::
  "app_config \<Rightarrow> (string \<times> string) list \<Rightarrow> path \<Rightarrow> 'a organizer_state \<Rightarrow> path
     \<Rightarrow> os_error + 'a organizer_state" where
  "organize_file config extension_map directory st file_path =
     (if file_path \<in> set (o_processed st) then Inr st
      else
        (let category = get_file_category extension_map file_path in
         if category = ''other'' then
           Inr (st\<lparr>o_log := o_log st @ [Debug_skipping (path_name file_path)]\<rparr>)
         else
           (let target_dir = joinpath directory category in
            case ensure_directory (o_fs st) target_dir of
              Inl e \<Rightarrow> Inl e
            | Inr fs1 \<Rightarrow>
                (let target_path =
                       get_unique_filename fs1 target_dir (path_name file_path)
                         (max_duplicate_suffix config)
                 in case move_file fs1 file_path target_path of
                      (True, fs2) \<Rightarrow>
                        Inr (st\<lparr>o_fs := fs2,
                                o_stats := bump_stat category (o_stats st),
                                o_processed := file_path # o_processed st,
                                o_log := o_log st @ [Info_moved file_path category target_path]\<rparr>)
                    | (False, fs2) \<Rightarrow>
                        Inr (st\<lparr>o_fs := fs2,
                                o_log := o_log st @ [Error_move_failed (path_name file_path)]\<rparr>)))))"

fun organize_files ::
  "app_config \<Rightarrow> (string \<times> string) list \<Rightarrow> path \<Rightarrow> 'a organizer_state \<Rightarrow> path list
     \<Rightarrow> os_error + 'a organizer_state" where
  "organize_files config extension_map directory st [] = Inr st"
| "organize_files config extension_map directory st (file_path # files) =
     (case organize_file config extension_map directory st file_path of
        Inl e \<Rightarrow> Inl e
      | Inr st' \<Rightarrow> organize_files config extension_map directory st' files)"

text \<open>
  \<open>organize_directory\<close>. The returned state holds what the call leaves behind: the
  dictionary it returns (\<open>o_stats\<close>), the file system and the log.
\<close>

definition organize_directory ::
  "app_config \<Rightarrow> 'a filesystem \<Rightarrow> path \<Rightarrow> os_error + 'a organizer_state" where
  "organize_directory config fs directory =
     (if \<not> path_exists fs directory \<or> \<not> is_dir fs directory then
        Inr \<lparr> o_fs = fs, o_stats = [], o_processed = [],
              o_log = [Error_directory_missing directory] \<rparr>
      else
        (let files = get_files_in_directory fs directory False;
             st0 = \<lparr> o_fs = fs, o_stats = [], o_processed = [],
                     o_log = [Info_starting directory] \<rparr>
         in case organize_files config (build_extension_map config) directory st0 files of
              Inl e \<Rightarrow> Inl e
            | Inr st \<Rightarrow> Inr (st\<lparr>o_log := o_log st @ log_statistics (o_stats st)\<rparr>)))"

section \<open>Tables (\<open>pandas.DataFrame\<close>)\<close>

text \<open>
  A table is the list of its named columns. A column is numeric or of dtype \<open>object\<close>
  holding text; an absent cell (\<open>NaN\<close>) is \<open>None\<close>. Numeric cells are exact rationals:
  the rounding of 64-bit floats is outside this model.
\<close>

datatype column = Numeric "rat option list" | Object "string option list"

datatype cell = Num rat | Str string

type_synonym table = "(string \<times> column) list"

fun column_cells :: "column \<Rightarrow> cell option list" where
  "column_cells (Numeric xs) = map (map_option Num) xs"
| "column_cells (Object xs) = map (map_option Str) xs"

definition column_len :: "column \<Rightarrow> nat" where
  "column_len c = length (column_cells c)"

definition nrows :: "table \<Rightarrow> nat" where
  "nrows df = (case df of [] \<Rightarrow> 0 | (_, c) # _ \<Rightarrow> column_len c)"

definition ncols :: "table \<Rightarrow> nat" where
  "ncols df = length df"

definition wf_table :: "table \<Rightarrow> bool" where
  "wf_table df = list_all (\<lambda>(name, c). column_len c = nrows df) df"

definition row :: "table \<Rightarrow> nat \<Rightarrow> cell option list" where
  "row df i = map (\<lambda>(name, c). column_cells c ! i) df"

definition rows :: "table \<Rightarrow> cell option list list" where
  "rows df = map (row df) [0..<nrows df]"

text \<open>\<open>df.isnull().sum().sum()\<close> and \<open>df[column].isnull().any()\<close>.\<close>

definition isnull_count :: "column \<Rightarrow> nat" where
  "isnull_count c = length [x \<leftarrow> column_cells c. x = None]"

definition missing_count :: "table \<Rightarrow> nat" where
  "missing_count df = sum_list (map (\<lambda>(name, c). isnull_count c) df)"

definition isnull_any :: "column \<Rightarrow> bool" where
  "isnull_any c = (None \<in> set (column_cells c))"

text \<open>
  \<open>df.duplicated()\<close>: a row is marked when an earlier row has the same values in every
  column, an absent cell being equal to an absent cell.
\<close>

definition duplicated :: "table \<Rightarrow> bool list" where
  "duplicated df = map (\<lambda>i. row df i \<in> set (map (row df) [0..<i])) [0..<nrows df]"

definition duplicated_count :: "table \<Rightarrow> nat" where
  "duplicated_count df = length [d \<leftarrow> duplicated df. d]"

fun select_rows :: "nat list \<Rightarrow> column \<Rightarrow> column" where
  "select_rows keep (Numeric xs) = Numeric (map (\<lambda>i. xs ! i) keep)"
| "select_rows keep (Object xs) = Object (map (\<lambda>i. xs ! i) keep)"

text \<open>\<open>df.drop_duplicates()\<close>: the rows that \<open>duplicated\<close> does not mark, in their order.\<close>

definition drop_duplicates :: "table \<Rightarrow> table" where
  "drop_duplicates df =
     (let keep = [i \<leftarrow> [0..<nrows df]. \<not> duplicated df ! i]
      in map (\<lambda>(name, c). (name, select_rows keep c)) df)"

text \<open>\<open>Series.median()\<close>: absent cells are skipped; no present value gives \<open>NaN\<close>.\<close>

definition present :: "'a option list \<Rightarrow> 'a list" where
  "present xs = [the x. x \<leftarrow> xs, x \<noteq> None]"

definition median :: "rat option list \<Rightarrow> rat option" where
  "median xs =
     (let s = sort (present xs); n = length s in
      if n = 0 then None
      else if n mod 2 = 1 then Some (s ! (n div 2))
      else Some ((s ! (n div 2 - 1) + s ! (n div 2)) / 2))"

text \<open>
  \<open>Series.mode()\<close>: the present values that occur most often, returned sorted; empty
  when the column has no present value.
\<close>

definition mode :: "string option list \<Rightarrow> string list" where
  "mode xs =
     (let vs = present xs;
          top = fold max (map (count_list vs) vs) 0
      in sort [v \<leftarrow> remdups vs. count_list vs v = top])"

text \<open>\<open>Series.fillna(value)\<close>; filling with \<open>NaN\<close> changes nothing.\<close>

definition fillna :: "'a option \<Rightarrow> 'a option list \<Rightarrow> 'a option list" where
  "fillna v xs =
     (case v of
        None \<Rightarrow> xs
      | Some m \<Rightarrow> map (\<lambda>x. case x of None \<Rightarrow> Some m | Some y \<Rightarrow> Some y) xs)"

text \<open>\<open>str.strip()\<close>: removes leading and trailing ASCII white space.\<close>

definition is_space :: "char \<Rightarrow> bool" where
  "is_space c \<longleftrightarrow>
     c \<in> set [CHR '' '', CHR 0x09, CHR 0x0A, CHR 0x0B, CHR 0x0C, CHR 0x0D,
               CHR 0x1C, CHR 0x1D, CHR 0x1E, CHR 0x1F]"

definition strip :: "string \<Rightarrow> string" where
  "strip s = rev (dropWhile is_space (rev (dropWhile is_space s)))"

section \<open>The data cleaner (\<open>DataCleaner\<close>)\<close>

text \<open>
  \<open>_remove_duplicates\<close>, \<open>_handle_missing_values\<close> and \<open>_standardize_data_types\<close> as
  functions on tables. The informational lines they log do not influence what they
  return and are left out; the copies they take are the tables themselves.
\<close>

definition remove_duplicates :: "table \<Rightarrow> table" where
  "remove_duplicates df =
     (let duplicates = duplicated_count df in
      if duplicates > 0 then drop_duplicates df else df)"

text \<open>The body of the loop of \<open>_handle_missing_values\<close> for one column.\<close>

definition fill_column :: "column \<Rightarrow> column" where
  "fill_column c =
     (if isnull_any c then
        (case c of
           Numeric xs \<Rightarrow>
             (let median_value = median xs in Numeric (fillna median_value xs))
         | Object xs \<Rightarrow>
             (let mode_values = mode xs;
                  fill_value = (if length mode_values > 0 then mode_values ! 0 else ''Unknown'')
              in Object (fillna (Some fill_value) xs)))
      else c)"

definition handle_missing_values :: "table \<Rightarrow> table" where
  "handle_missing_values df =
     (let missing = missing_count df in
      if missing = 0 then df
      else map (\<lambda>(name, c). (name, fill_column c)) df)"

definition standardize_data_types :: "table \<Rightarrow> table" where
  "standardize_data_types df =
     map (\<lambda>(name, c).
            (name, case c of Object xs \<Rightarrow> Object (map (map_option strip) xs) | Numeric xs \<Rightarrow> c))
       df"

text \<open>
  The body of the \<open>try\<close> block of \<open>clean_csv\<close> between loading and saving: the cleaned
  table and the dictionary \<open>stats\<close>, its keys in insertion order.
\<close>

definition clean_table :: "table \<Rightarrow> table \<times> (string \<times> int) list" where
  "clean_table df =
     (let initial_rows = nrows df;
          initial_cols = ncols df;
          stats = [(''initial_rows'', int initial_rows),
                   (''initial_columns'', int initial_cols),
                   (''missing_values_found'', int (missing_count df)),
                   (''duplicate_rows_found'', int (duplicated_count df))];
          df_cleaned = remove_duplicates df;
          df_cleaned = handle_missing_values df_cleaned;
          df_cleaned = standardize_data_types df_cleaned
      in (df_cleaned,
          stats @ [(''final_rows'', int (nrows df_cleaned)),
                   (''final_columns'', int (ncols df_cleaned)),
                   (''rows_removed'', int initial_rows - int (nrows df_cleaned))]))"

definition stat :: "(string \<times> int) list \<Rightarrow> string \<Rightarrow> int option" where
  "stat stats key = map_of stats key"

datatype cleaner_log =
    Error_csv_missing path
  | Info_start_cleaning string
  | Info_cleaned "(string \<times> int) list"
  | Info_saved path
  | Error_cleaning string

record 'a cleaner_result =
  c_stats :: "(string \<times> int) list"
  c_fs :: "'a filesystem"
  c_log :: "cleaner_log list"

text \<open>Writing a file: the parent must be a directory and the path must not be one.\<close>

definition write_file :: "'a filesystem \<Rightarrow> path \<Rightarrow> 'a \<Rightarrow> os_error + 'a filesystem" where
  "write_file fs p content =
     (if is_dir fs p then Inl IsADirectoryError
      else if p \<in> set (denied fs) then Inl PermissionError
      else
        (case lookup fs (path_parent p) of
           Some Dir \<Rightarrow> Inr (fs\<lparr>entries := AList.update p (File content) (entries fs)\<rparr>)
         | Some (File _) \<Rightarrow> Inl NotADirectoryError
         | None \<Rightarrow> Inl FileNotFoundError))"

text \<open>
  \<open>clean_csv\<close>. The tabular loader and writer are parameters: \<open>read_csv\<close> gives
  \<open>None\<close> where \<open>pd.read_csv\<close> raises. Every exception inside the \<open>try\<close> block ends in
  the handler, which logs it and returns the empty dictionary.
\<close>

definition clean_csv ::
  "('a \<Rightarrow> table option) \<Rightarrow> (table \<Rightarrow> 'a) \<Rightarrow> 'a filesystem \<Rightarrow> path \<Rightarrow> path
     \<Rightarrow> 'a cleaner_result" where
  "clean_csv read_csv to_csv fs file_path output_path =
     (if \<not> path_exists fs file_path \<or> \<not> is_file fs file_path then
        \<lparr> c_stats = [], c_fs = fs, c_log = [Error_csv_missing file_path] \<rparr>
      else
        (let started = [Info_start_cleaning (path_name file_path)];
             failed = (\<lambda>fs'. \<lparr> c_stats = [], c_fs = fs',
                                 c_log = started @ [Error_cleaning (path_name file_path)] \<rparr>)
         in case lookup fs file_path of
              Some (File content) \<Rightarrow>
                (case read_csv content of
                   None \<Rightarrow> failed fs
                 | Some df \<Rightarrow>
                     (case clean_table df of
                        (df_cleaned, stats) \<Rightarrow>
                          (case ensure_directory fs (path_parent output_path) of
                             Inl e \<Rightarrow> failed fs
                           | Inr fs1 \<Rightarrow>
                               (case write_file fs1 output_path (to_csv df_cleaned) of
                                  Inl e \<Rightarrow> failed fs1
                                | Inr fs2 \<Rightarrow>
                                    \<lparr> c_stats = stats, c_fs = fs2,
                                      c_log = started @ [Info_cleaned stats, Info_saved output_path] \<rparr>))))
            | _ \<Rightarrow> failed fs))"

section \<open>Notions the specification uses\<close>

text \<open>
  The candidates of the resolver, \<open>directory/{stem}_{i}{extension}\<close> and
  \<open>directory/{stem}_final{extension}\<close>, for a desired file name.
\<close>

definition candidate_path :: "path \<Rightarrow> string \<Rightarrow> int \<Rightarrow> path" where
  "candidate_path directory filename i =
     joinpath directory (suffixed_name (path_stem filename) (path_suffix filename) i)"

definition fallback_path :: "path \<Rightarrow> string \<Rightarrow> path" where
  "fallback_path directory filename =
     joinpath directory (final_name (path_stem filename) (path_suffix filename))"


text \<open>Two small directory snapshots used as concrete inputs.\<close>

definition example_fs :: "unit filesystem" where
  "example_fs =
     \<lparr> entries = [([''d''], Dir), ([''d'', ''a.txt''], File ()), ([''d'', ''a_1.txt''], File ())],
       denied = [] \<rparr>"

definition crowded_fs :: "unit filesystem" where
  "crowded_fs =
     \<lparr> entries = [([''d''], Dir), ([''d'', ''a.txt''], File ()), ([''d'', ''a_1.txt''], File ()),
                  ([''d'', ''a_final.txt''], File ())],
       denied = [] \<rparr>"


text \<open>The log lines written at level \<open>error\<close>.\<close>

fun is_error_entry :: "log_entry \<Rightarrow> bool" where
  "is_error_entry (Error_directory_missing _) = True"
| "is_error_entry (Error_move_failed _) = True"
| "is_error_entry _ = False"

text \<open>A directory \<open>d\<close> whose immediate files have no recognised extension, and an empty directory \<open>e\<close>.\<close>

definition other_fs :: "unit filesystem" where
  "other_fs =
     \<lparr> entries = [([''d''], Dir), ([''d'', ''notes''], File ()), ([''d'', ''data.xyz''], File ()),
                  ([''d'', ''sub''], Dir), ([''d'', ''sub'', ''a.pdf''], File ()), ([''e''], Dir),
                  ([''f.csv''], File ())],
       denied = [] \<rparr>"

text \<open>
  Keeping the first occurrence of each distinct element of a list, in the order of the
  list: the specification's deduplication.
\<close>

fun first_occurrences :: "'a list \<Rightarrow> 'a list" where
  "first_occurrences [] = []"
| "first_occurrences (x # xs) = x # first_occurrences [y \<leftarrow> xs. y \<noteq> x]"

text \<open>A table whose rows are \<open>[A, B, A, C, A]\<close>; row \<open>A\<close> has an absent cell.\<close>

definition abaca_table :: table where
  "abaca_table =
     [(''city'', Object [None, Some ''Izmir'', None, Some ''Ankara'', None]),
      (''amount'', Numeric [Some 1, Some 2, Some 1, Some 3, Some 1])]"

text \<open>The indices of the rows that \<open>drop_duplicates\<close> keeps.\<close>

definition kept :: "table \<Rightarrow> nat list" where
  "kept df = [i \<leftarrow> [0..<nrows df]. \<not> duplicated df ! i]"

text \<open>
  The specification's mode: the most frequent present value, a tie going to the value
  encountered first.
\<close>

definition mode_first_encountered :: "string option list \<Rightarrow> string option" where
  "mode_first_encountered xs =
     (let vs = present xs;
          top = fold max (map (count_list vs) vs) 0
      in case [v \<leftarrow> vs. count_list vs v = top] of [] \<Rightarrow> None | v # _ \<Rightarrow> Some v)"

text \<open>Tables used as concrete inputs of the imputation.\<close>

definition tied_table :: table where
  "tied_table = [(''city'', Object [Some ''y'', Some ''x'', None])]"

definition amounts_table :: table where
  "amounts_table = [(''amount'', Numeric [Some 4, None, Some 1, Some 3, Some 2])]"

definition cities_table :: table where
  "cities_table =
     [(''id'', Numeric [Some 1, Some 2, Some 3, Some 4]),
      (''city'', Object [Some ''x'', Some ''x'', None, Some ''y''])]"

text \<open>
  A column that is not numeric, empty, or has a present value; a table none of whose
  numeric columns consists of absent cells only.
\<close>

fun not_all_absent :: "column \<Rightarrow> bool" where
  "not_all_absent (Numeric xs) = (xs = [] \<or> present xs \<noteq> [])"
| "not_all_absent (Object xs) = True"

definition no_absent_numeric_column :: "table \<Rightarrow> bool" where
  "no_absent_numeric_column df = list_all (\<lambda>(name, c). not_all_absent c) df"

text \<open>A column whose absent cells, if any, imputation can fill.\<close>

fun fillable :: "column \<Rightarrow> bool" where
  "fillable (Numeric xs) = (None \<notin> set xs \<or> present xs \<noteq> [])"
| "fillable (Object xs) = True"

text \<open>Tables used as concrete inputs of a second cleaning pass.\<close>

definition padded_table :: table where
  "padded_table =
     [(''city'', Object [Some ''x '', Some ''x'']), (''n'', Numeric [None, None])]"

definition survey_table :: table where
  "survey_table =
     [(''city'', Object [Some '' a '', None, Some '' a '']), (''n'', Numeric [Some 1, Some 2, Some 1])]"

text \<open>The moves a log records: source, category and destination of each \<open>Info_moved\<close> line.\<close>

fun moves_of :: "log_entry list \<Rightarrow> (path \<times> string \<times> path) list" where
  "moves_of [] = []"
| "moves_of (Info_moved f c t # es) = (f, c, t) # moves_of es"
| "moves_of (e # es) = moves_of es"












text \<open>
  A column in which distinct present text values stay distinct when trimmed; a table all
  of whose columns are so.
\<close>

fun trims_apart :: "column \<Rightarrow> bool" where
  "trims_apart (Object xs) = distinct (map strip (remdups (present xs)))"
| "trims_apart (Numeric xs) = True"

definition trimming_injective :: "table \<Rightarrow> bool" where
  "trimming_injective df = list_all (\<lambda>(name, c). trims_apart c) df"

text \<open>What trimming does to a cell.\<close>

fun strip_cell :: "cell \<Rightarrow> cell" where
  "strip_cell (Str s) = Str (strip s)"
| "strip_cell (Num r) = Num r"

text \<open>
  A table without absent cells, and a directory holding tables as files, for a loader and
  writer that exchange tables unchanged.
\<close>

definition plain_table :: table where
  "plain_table =
     [(''city'', Object [Some '' a '', Some ''b'', Some '' a '']), (''n'', Numeric [Some 1, Some 2, Some 1])]"

definition csv_fs :: "table filesystem" where
  "csv_fs =
     \<lparr> entries = [([''data''], Dir), ([''data'', ''survey.csv''], File survey_table),
                  ([''data'', ''plain.csv''], File plain_table),
                  ([''data'', ''padded.csv''], File padded_table)],
       denied = [] \<rparr>"

text \<open>
  Cleaning a file and then cleaning the file the first run wrote.
\<close>

definition clean_twice ::
  "('a \<Rightarrow> table option) \<Rightarrow> (table \<Rightarrow> 'a) \<Rightarrow> 'a filesystem \<Rightarrow> path \<Rightarrow> path \<Rightarrow> path
     \<Rightarrow> 'a cleaner_result" where
  "clean_twice read_csv to_csv fs file_path output_path output_path' =
     clean_csv read_csv to_csv
       (c_fs (clean_csv read_csv to_csv fs file_path output_path)) output_path output_path'"

section \<open>Properties of the unique path resolver\<close>

lemma path_name_joinpath [simp]: "path_name (joinpath d n) = n"
  by (simp add: path_name_def joinpath_def)

lemma path_parent_joinpath [simp]: "path_parent (joinpath d n) = d"
  by (simp add: path_parent_def joinpath_def)

lemma try_suffixes_first_free:
  "i \<le> k \<Longrightarrow> k \<le> m \<Longrightarrow>
   \<not> path_exists fs (joinpath d (suffixed_name st sf k)) \<Longrightarrow>
   (\<forall>j. i \<le> j \<and> j < k \<longrightarrow> path_exists fs (joinpath d (suffixed_name st sf j))) \<Longrightarrow>
   try_suffixes fs d st sf i m = joinpath d (suffixed_name st sf k)"
proof (induction fs d st sf i m rule: try_suffixes.induct)
  case (1 fs d st sf i m)
  show ?case
  proof (cases "i = k")
    case True
    with "1.prems" show ?thesis
      by (subst try_suffixes.simps) simp
  next
    case False
    with "1.prems" have lt: "i < k" by simp
    with "1.prems" have ex: "path_exists fs (joinpath d (suffixed_name st sf i))" by simp
    have "try_suffixes fs d st sf (i + 1) m = joinpath d (suffixed_name st sf k)"
      using "1.prems" lt ex by (intro "1.IH") auto
    with "1.prems" lt ex show ?thesis
      by (subst try_suffixes.simps) simp
  qed
qed

lemma try_suffixes_all_taken:
  "(\<forall>j. i \<le> j \<and> j \<le> m \<longrightarrow> path_exists fs (joinpath d (suffixed_name st sf j))) \<Longrightarrow>
   try_suffixes fs d st sf i m = joinpath d (final_name st sf)"
proof (induction fs d st sf i m rule: try_suffixes.induct)
  case (1 fs d st sf i m)
  show ?case
  proof (cases "m < i")
    case True
    then show ?thesis by (subst try_suffixes.simps) simp
  next
    case False
    with "1.prems" have ex: "path_exists fs (joinpath d (suffixed_name st sf i))" by simp
    have "try_suffixes fs d st sf (i + 1) m = joinpath d (final_name st sf)"
      using "1.prems" False ex by (intro "1.IH") auto
    with False ex show ?thesis
      by (subst try_suffixes.simps) simp
  qed
qed

text \<open>
  Claim C1. \<open>get_unique_filename\<close> returns \<open>directory/filename\<close> when that path does
  not exist; otherwise the candidate \<open>directory/{stem}_{i}{extension}\<close> of the smallest
  \<open>i\<close> in \<open>1..max_suffix\<close> that does not exist; and \<open>directory/{stem}_final{extension}\<close>
  when all of them exist. In particular, when the desired name and the candidates
  \<open>1..n\<close> exist and no other candidate does, the result is candidate \<open>n + 1\<close> if
  \<open>n + 1 \<le> max_suffix\<close> and the fallback otherwise.
\<close>

theorem get_unique_filename_algorithm:
  "(\<not> path_exists fs (joinpath directory filename) \<longrightarrow>
      get_unique_filename fs directory filename max_suffix = joinpath directory filename)
   \<and> (path_exists fs (joinpath directory filename) \<and> 1 \<le> i \<and> i \<le> max_suffix
        \<and> \<not> path_exists fs (candidate_path directory filename i)
        \<and> (\<forall>j. 1 \<le> j \<and> j < i \<longrightarrow> path_exists fs (candidate_path directory filename j)) \<longrightarrow>
      get_unique_filename fs directory filename max_suffix = candidate_path directory filename i)
   \<and> (path_exists fs (joinpath directory filename)
        \<and> (\<forall>j. 1 \<le> j \<and> j \<le> max_suffix \<longrightarrow> path_exists fs (candidate_path directory filename j)) \<longrightarrow>
      get_unique_filename fs directory filename max_suffix = fallback_path directory filename)
   \<and> (0 \<le> n \<and> path_exists fs (joinpath directory filename)
        \<and> (\<forall>j. 1 \<le> j \<and> j \<le> n \<longrightarrow> path_exists fs (candidate_path directory filename j))
        \<and> (\<forall>j. n < j \<longrightarrow> \<not> path_exists fs (candidate_path directory filename j)) \<longrightarrow>
      get_unique_filename fs directory filename max_suffix =
        (if n + 1 \<le> max_suffix then candidate_path directory filename (n + 1)
         else fallback_path directory filename))"
proof (intro conjI impI)
  assume "\<not> path_exists fs (joinpath directory filename)"
  then show "get_unique_filename fs directory filename max_suffix = joinpath directory filename"
    by (simp add: get_unique_filename_def)
next
  assume a: "path_exists fs (joinpath directory filename) \<and> 1 \<le> i \<and> i \<le> max_suffix
        \<and> \<not> path_exists fs (candidate_path directory filename i)
        \<and> (\<forall>j. 1 \<le> j \<and> j < i \<longrightarrow> path_exists fs (candidate_path directory filename j))"
  then show "get_unique_filename fs directory filename max_suffix = candidate_path directory filename i"
    unfolding get_unique_filename_def candidate_path_def
    by (simp add: try_suffixes_first_free [where k = i])
next
  assume a: "path_exists fs (joinpath directory filename)
        \<and> (\<forall>j. 1 \<le> j \<and> j \<le> max_suffix \<longrightarrow> path_exists fs (candidate_path directory filename j))"
  then show "get_unique_filename fs directory filename max_suffix = fallback_path directory filename"
    unfolding get_unique_filename_def candidate_path_def fallback_path_def
    by (simp add: try_suffixes_all_taken)
next
  assume a: "0 \<le> n \<and> path_exists fs (joinpath directory filename)
        \<and> (\<forall>j. 1 \<le> j \<and> j \<le> n \<longrightarrow> path_exists fs (candidate_path directory filename j))
        \<and> (\<forall>j. n < j \<longrightarrow> \<not> path_exists fs (candidate_path directory filename j))"
  show "get_unique_filename fs directory filename max_suffix =
        (if n + 1 \<le> max_suffix then candidate_path directory filename (n + 1)
         else fallback_path directory filename)"
  proof (cases "n + 1 \<le> max_suffix")
    case True
    have "try_suffixes fs directory (path_stem filename) (path_suffix filename) 1 max_suffix
        = joinpath directory (suffixed_name (path_stem filename) (path_suffix filename) (n + 1))"
      using a True by (intro try_suffixes_first_free) (auto simp: candidate_path_def)
    with a True show ?thesis
      by (simp add: get_unique_filename_def candidate_path_def)
  next
    case False
    have "try_suffixes fs directory (path_stem filename) (path_suffix filename) 1 max_suffix
        = joinpath directory (final_name (path_stem filename) (path_suffix filename))"
      using a False by (intro try_suffixes_all_taken) (auto simp: candidate_path_def)
    with a False show ?thesis
      by (simp add: get_unique_filename_def fallback_path_def)
  qed
qed

lemma digit_char_inj: "a < 10 \<Longrightarrow> b < 10 \<Longrightarrow> digit_char a = digit_char b \<Longrightarrow> a = b"
proof -
  assume "a < 10" "b < 10" "digit_char a = digit_char b"
  moreover have "\<forall>a\<in>set [0..<10]. \<forall>b\<in>set [0..<10]. digit_char a = digit_char b \<longrightarrow> a = b"
    by code_simp
  ultimately show ?thesis by auto
qed

lemma str_nat_not_Nil: "str_nat n \<noteq> []"
  by (subst str_nat.simps) simp

lemma str_nat_inj: "str_nat a = str_nat b \<Longrightarrow> a = b"
proof (induction a arbitrary: b rule: str_nat.induct)
  case (1 a)
  show ?case
  proof (cases "a < 10")
    case True
    with "1.prems" have e: "[digit_char a] = str_nat b" by (subst (asm) str_nat.simps) simp
    show ?thesis
    proof (cases "b < 10")
      case b: True
      with e have "digit_char a = digit_char b" by (subst (asm) str_nat.simps) simp
      with True b show ?thesis by (rule digit_char_inj)
    next
      case b: False
      with e have "[digit_char a] = str_nat (b div 10) @ [digit_char (b mod 10)]"
        by (subst (asm) str_nat.simps) simp
      then show ?thesis using str_nat_not_Nil [of "b div 10"] by simp
    qed
  next
    case False
    with "1.prems" have e: "str_nat (a div 10) @ [digit_char (a mod 10)] = str_nat b"
      by (subst (asm) str_nat.simps) simp
    show ?thesis
    proof (cases "b < 10")
      case b: True
      with e have "str_nat (a div 10) @ [digit_char (a mod 10)] = [digit_char b]"
        by (subst (asm) (2) str_nat.simps) simp
      then show ?thesis using str_nat_not_Nil [of "a div 10"] by simp
    next
      case b: False
      with e have "str_nat (a div 10) @ [digit_char (a mod 10)]
          = str_nat (b div 10) @ [digit_char (b mod 10)]"
        by (subst (asm) (2) str_nat.simps) simp
      then have "str_nat (a div 10) = str_nat (b div 10)"
        and d: "digit_char (a mod 10) = digit_char (b mod 10)" by simp_all
      with False "1.IH" have "a div 10 = b div 10" by blast
      moreover have "a mod 10 = b mod 10" using d by (intro digit_char_inj) simp_all
      ultimately show ?thesis by (metis div_mult_mod_eq)
    qed
  qed
qed

lemmas path_evals =
  joinpath_def path_name_def path_parent_def path_stem_def path_suffix_def
  candidate_path_def fallback_path_def suffixed_name_def final_name_def
  path_exists_def is_dir_def is_file_def lookup_def

lemma str_int_1: "str_int 1 = ''1''"
  by (simp add: str_int_def str_nat.simps digit_char_def)

lemma str_int_2: "str_int 2 = ''2''"
  by (simp add: str_int_def str_nat.simps digit_char_def)

lemma str_int_inj_nonneg: "0 \<le> a \<Longrightarrow> 0 \<le> b \<Longrightarrow> str_int a = str_int b \<Longrightarrow> a = b"
  using str_nat_inj [of "nat a" "nat b"] by (simp add: str_int_def)

lemma example_fs_exists:
  "path_exists example_fs [''d'', ''a'' @ ''_'' @ str_int j @ ''.txt''] \<longleftrightarrow> str_int j = ''1''"
  by (auto simp: example_fs_def path_evals)

lemma example_candidates: "0 \<le> j \<Longrightarrow> path_exists example_fs (candidate_path [''d''] ''a.txt'' j) \<longleftrightarrow> j = 1"
  using str_int_inj_nonneg [of j 1] example_fs_exists [of j]
  by (auto simp: path_evals str_int_1)

text \<open>
  The four cases of C1 on a directory holding \<open>a.txt\<close> and \<open>a_1.txt\<close>.
\<close>

theorem get_unique_filename_algorithm_witness:
  "get_unique_filename example_fs [''d''] ''b.txt'' 3 = [''d'', ''b.txt'']
   \<and> get_unique_filename example_fs [''d''] ''a.txt'' 3 = [''d'', ''a_2.txt'']
   \<and> get_unique_filename example_fs [''d''] ''a.txt'' 1 = [''d'', ''a_final.txt'']"
proof -
  have base: "path_exists example_fs (joinpath [''d''] ''a.txt'')"
    and free: "\<not> path_exists example_fs (joinpath [''d''] ''b.txt'')"
    by (simp_all add: example_fs_def path_evals)
  have c1: "\<forall>j. 1 \<le> j \<and> j \<le> 1 \<longrightarrow> path_exists example_fs (candidate_path [''d''] ''a.txt'' j)"
    by (simp add: example_candidates)
  have c2: "\<forall>j. 1 < j \<longrightarrow> \<not> path_exists example_fs (candidate_path [''d''] ''a.txt'' j)"
    by (simp add: example_candidates)
  have c3: "\<forall>j. 1 \<le> j \<and> j < 2 \<longrightarrow> path_exists example_fs (candidate_path [''d''] ''a.txt'' j)"
    by (simp add: example_candidates)
  have c4: "\<not> path_exists example_fs (candidate_path [''d''] ''a.txt'' 2)"
    by (simp add: example_candidates)
  note alg = get_unique_filename_algorithm [where fs = example_fs and directory = "[''d'']"]
  have "get_unique_filename example_fs [''d''] ''b.txt'' 3 = joinpath [''d''] ''b.txt''"
    using alg [of "''b.txt''" 3] free by blast
  moreover have "get_unique_filename example_fs [''d''] ''a.txt'' 3 = candidate_path [''d''] ''a.txt'' 2"
    using alg [of "''a.txt''" 3 2] base c3 c4 by simp
  moreover have "get_unique_filename example_fs [''d''] ''a.txt'' 1 = fallback_path [''d''] ''a.txt''"
    using alg [of "''a.txt''" 1] base c1 by blast
  moreover have "get_unique_filename example_fs [''d''] ''a.txt'' 3 = candidate_path [''d''] ''a.txt'' (1 + 1)"
    using alg [of "''a.txt''" 3 _ 1] base c1 c2 by simp
  moreover have "get_unique_filename example_fs [''d''] ''a.txt'' 1 = fallback_path [''d''] ''a.txt''"
    using alg [of "''a.txt''" 1 _ 1] base c1 c2 by simp
  ultimately show ?thesis
    by (simp add: path_evals str_int_2)
qed

lemma try_suffixes_result:
  "(try_suffixes fs d st sf i m = joinpath d (final_name st sf)
      \<and> (\<forall>j. i \<le> j \<and> j \<le> m \<longrightarrow> path_exists fs (joinpath d (suffixed_name st sf j))))
   \<or> (\<exists>k. i \<le> k \<and> k \<le> m \<and> try_suffixes fs d st sf i m = joinpath d (suffixed_name st sf k)
        \<and> \<not> path_exists fs (joinpath d (suffixed_name st sf k)))"
proof (cases "\<forall>j. i \<le> j \<and> j \<le> m \<longrightarrow> path_exists fs (joinpath d (suffixed_name st sf j))")
  case True
  then show ?thesis by (simp add: try_suffixes_all_taken)
next
  case False
  then obtain j where j: "i \<le> j" "j \<le> m" "\<not> path_exists fs (joinpath d (suffixed_name st sf j))"
    by blast
  define P where "P = (\<lambda>n. \<not> path_exists fs (joinpath d (suffixed_name st sf (i + int n))))"
  have "P (nat (j - i))" using j by (simp add: P_def)
  then have Pl: "P (LEAST n. P n)" and le: "(LEAST n. P n) \<le> nat (j - i)"
    by (rule LeastI, rule Least_le)
  have least: "\<not> P n" if "n < (LEAST n. P n)" for n
    using that by (rule not_less_Least)
  define k where "k = i + int (LEAST n. P n)"
  have k: "i \<le> k" "k \<le> m" "\<not> path_exists fs (joinpath d (suffixed_name st sf k))"
    using Pl le j by (auto simp: k_def P_def)
  have "\<forall>x. i \<le> x \<and> x < k \<longrightarrow> path_exists fs (joinpath d (suffixed_name st sf x))"
  proof (intro allI impI)
    fix x assume x: "i \<le> x \<and> x < k"
    then have "nat (x - i) < (LEAST n. P n)" unfolding k_def by linarith
    from least [OF this] x show "path_exists fs (joinpath d (suffixed_name st sf x))"
      by (simp add: P_def)
  qed
  with k have "try_suffixes fs d st sf i m = joinpath d (suffixed_name st sf k)"
    by (intro try_suffixes_first_free) auto
  with k show ?thesis by blast
qed

lemma get_unique_filename_cases:
  "(get_unique_filename fs d f m = joinpath d f \<and> \<not> path_exists fs (joinpath d f))
   \<or> (\<exists>k. 1 \<le> k \<and> k \<le> m \<and> get_unique_filename fs d f m = candidate_path d f k
        \<and> \<not> path_exists fs (candidate_path d f k))
   \<or> (get_unique_filename fs d f m = fallback_path d f \<and> path_exists fs (joinpath d f)
        \<and> (\<forall>j. 1 \<le> j \<and> j \<le> m \<longrightarrow> path_exists fs (candidate_path d f j)))"
proof (cases "path_exists fs (joinpath d f)")
  case False
  then show ?thesis by (simp add: get_unique_filename_def)
next
  case True
  then have "get_unique_filename fs d f m = try_suffixes fs d (path_stem f) (path_suffix f) 1 m"
    by (simp add: get_unique_filename_def)
  with True try_suffixes_result [of fs d "path_stem f" "path_suffix f" 1 m] show ?thesis
    unfolding candidate_path_def fallback_path_def by auto
qed

text \<open>
  Claim C5, amended. The path \<open>get_unique_filename\<close> returns does not exist in the
  snapshot, provided the desired path or one of the candidates \<open>1..max_suffix\<close> is
  free. When all of them exist the fallback is returned without an existence check.
\<close>

theorem get_unique_filename_fresh_unless_exhausted:
  "\<not> path_exists fs (joinpath directory filename)
     \<or> (\<exists>i. 1 \<le> i \<and> i \<le> max_suffix \<and> \<not> path_exists fs (candidate_path directory filename i))
   \<Longrightarrow> \<not> path_exists fs (get_unique_filename fs directory filename max_suffix)"
  using get_unique_filename_cases [of fs directory filename max_suffix] by auto

theorem get_unique_filename_fresh_unless_exhausted_witness:
  "\<not> path_exists example_fs (get_unique_filename example_fs [''d''] ''a.txt'' 3)"
proof -
  have "1 \<le> (2::int) \<and> (2::int) \<le> 3 \<and> \<not> path_exists example_fs (candidate_path [''d''] ''a.txt'' 2)"
    by (simp add: example_candidates)
  then show ?thesis
    by (intro get_unique_filename_fresh_unless_exhausted) blast
qed

text \<open>
  Claim C5 as stated fails: with \<open>a.txt\<close>, \<open>a_1.txt\<close> and \<open>a_final.txt\<close> present and
  \<open>max_suffix = 1\<close> the returned path exists.
\<close>

theorem get_unique_filename_fallback_exists:
  "path_exists crowded_fs (get_unique_filename crowded_fs [''d''] ''a.txt'' 1)"
  by (simp add: get_unique_filename_def crowded_fs_def path_evals try_suffixes.simps
      str_int_def str_nat.simps digit_char_def)

section \<open>Properties of the organizer: runs that move nothing\<close>

lemma organize_files_all_other:
  "\<forall>f\<in>set files. get_file_category em f = ''other'' \<Longrightarrow>
   organize_files config em d st files =
     Inr (st\<lparr>o_log := o_log st
            @ map (\<lambda>f. Debug_skipping (path_name f)) [f \<leftarrow> files. f \<notin> set (o_processed st)]\<rparr>)"
proof (induction files arbitrary: st)
  case Nil
  then show ?case by simp
next
  case (Cons f files)
  then show ?case by (simp add: organize_file_def)
qed

text \<open>
  Claim C10. For an existing directory whose immediate files all classify as
  \<open>other\<close> (an empty directory included), \<open>organize_directory\<close> completes without
  logging an error, leaves the file system as it was, and returns the empty dictionary:
  the same value it returns for a path that does not exist or is not a directory, where
  it logs an error.
\<close>

theorem organize_directory_all_other:
  assumes "path_exists fs d \<and> is_dir fs d"
    and "\<forall>f\<in>set (get_files_in_directory fs d False).
           get_file_category (build_extension_map config) f = ''other''"
    and "\<not> path_exists fs' d' \<or> \<not> is_dir fs' d'"
  shows "\<exists>st st'. organize_directory config fs d = Inr st
           \<and> organize_directory config fs' d' = Inr st'
           \<and> o_stats st = [] \<and> o_stats st' = o_stats st
           \<and> o_fs st = fs \<and> \<not> list_ex is_error_entry (o_log st)
           \<and> list_ex is_error_entry (o_log st')"
proof -
  let ?files = "get_files_in_directory fs d False"
  let ?st = "\<lparr> o_fs = fs, o_stats = [], o_processed = [],
                o_log = Info_starting d # map (\<lambda>f. Debug_skipping (path_name f)) ?files
                  @ [Info_complete 0] \<rparr>"
  have "organize_files config (build_extension_map config) d
          \<lparr> o_fs = fs, o_stats = [], o_processed = [], o_log = [Info_starting d] \<rparr> ?files
        = Inr \<lparr> o_fs = fs, o_stats = [], o_processed = [],
                o_log = Info_starting d # map (\<lambda>f. Debug_skipping (path_name f)) ?files \<rparr>"
    by (subst organize_files_all_other [OF assms(2)]) simp
  with assms(1) have 1: "organize_directory config fs d = Inr ?st"
    by (simp add: organize_directory_def log_statistics_def)
  have 2: "organize_directory config fs' d' =
      Inr \<lparr> o_fs = fs', o_stats = [], o_processed = [], o_log = [Error_directory_missing d'] \<rparr>"
    using assms(3) by (auto simp: organize_directory_def)
  have "\<not> list_ex is_error_entry (o_log ?st)"
    by (simp add: list_ex_iff image_iff)
  with 1 2 show ?thesis by simp
qed

theorem organize_directory_all_other_witness:
  "\<exists>st st'. organize_directory get_default other_fs [''d''] = Inr st
     \<and> organize_directory get_default other_fs [''missing''] = Inr st'
     \<and> o_stats st = [] \<and> o_stats st' = o_stats st \<and> o_fs st = other_fs
     \<and> \<not> list_ex is_error_entry (o_log st) \<and> list_ex is_error_entry (o_log st')"
proof (rule organize_directory_all_other)
  show "path_exists other_fs [''d''] \<and> is_dir other_fs [''d'']"
    by code_simp
  show "\<forall>f\<in>set (get_files_in_directory other_fs [''d''] False).
           get_file_category (build_extension_map get_default) f = ''other''"
    by code_simp
  show "\<not> path_exists other_fs [''missing''] \<or> \<not> is_dir other_fs [''missing'']"
    by code_simp
qed

text \<open>
  Claim C9. When the directory given to \<open>organize_directory\<close> does not exist or is not a
  directory, and when the input path given to \<open>clean_csv\<close> does not exist or is not a
  file, the call logs one error and returns the empty dictionary; the file system is
  unchanged, nothing is moved or created and no table is loaded.
\<close>

theorem validation_failure_returns_empty:
  "(\<not> path_exists fs directory \<or> \<not> is_dir fs directory \<longrightarrow>
      organize_directory config fs directory =
        Inr \<lparr> o_fs = fs, o_stats = [], o_processed = [],
              o_log = [Error_directory_missing directory] \<rparr>)
   \<and> (\<not> path_exists fs file_path \<or> \<not> is_file fs file_path \<longrightarrow>
      clean_csv read_csv to_csv fs file_path output_path =
        \<lparr> c_stats = [], c_fs = fs, c_log = [Error_csv_missing file_path] \<rparr>)"
  by (auto simp: organize_directory_def clean_csv_def)

theorem validation_failure_returns_empty_witness:
  "organize_directory get_default other_fs [''missing''] =
     Inr \<lparr> o_fs = other_fs, o_stats = [], o_processed = [],
           o_log = [Error_directory_missing [''missing'']] \<rparr>
   \<and> organize_directory get_default other_fs [''f.csv''] =
     Inr \<lparr> o_fs = other_fs, o_stats = [], o_processed = [],
           o_log = [Error_directory_missing [''f.csv'']] \<rparr>
   \<and> clean_csv (\<lambda>u. None) (\<lambda>t. ()) other_fs [''missing.csv''] [''out.csv''] =
     \<lparr> c_stats = [], c_fs = other_fs, c_log = [Error_csv_missing [''missing.csv'']] \<rparr>
   \<and> clean_csv (\<lambda>u. None) (\<lambda>t. ()) other_fs [''d''] [''out.csv''] =
     \<lparr> c_stats = [], c_fs = other_fs, c_log = [Error_csv_missing [''d'']] \<rparr>"
proof -
  have a: "\<not> path_exists other_fs [''missing'']" "\<not> is_dir other_fs [''f.csv'']"
    "\<not> path_exists other_fs [''missing.csv'']" "\<not> is_file other_fs [''d'']"
    by (simp_all add: other_fs_def path_exists_def is_dir_def is_file_def lookup_def)
  show ?thesis
    using a validation_failure_returns_empty [of other_fs "[''missing'']" get_default "[''missing.csv'']"]
      validation_failure_returns_empty [of other_fs "[''f.csv'']" get_default "[''d'']"]
    by blast
qed

section \<open>Properties of the data cleaner: deduplication and row counts\<close>

lemma set_first_occurrences [simp]: "set (first_occurrences xs) = set xs"
  by (induction xs rule: first_occurrences.induct) auto

lemma first_occurrences_snoc:
  "first_occurrences (xs @ [x]) =
     (if x \<in> set xs then first_occurrences xs else first_occurrences xs @ [x])"
  by (induction xs rule: first_occurrences.induct) auto

lemma distinct_first_occurrences: "distinct (first_occurrences xs)"
  by (induction xs rule: first_occurrences.induct) auto

lemma first_occurrences_indices:
  "first_occurrences xs = map (\<lambda>i. xs ! i) [i \<leftarrow> [0..<length xs]. xs ! i \<notin> set (take i xs)]"
proof (induction xs rule: rev_induct)
  case Nil
  then show ?case by simp
next
  case (snoc x xs)
  define Q where "Q = (\<lambda>i. (xs @ [x]) ! i \<notin> set (take i (xs @ [x])))"
  define R where "R = (\<lambda>i. xs ! i \<notin> set (take i xs))"
  have f: "filter Q [0..<length xs] = filter R [0..<length xs]"
    by (rule filter_cong) (auto simp: Q_def R_def nth_append)
  have m: "map (\<lambda>i. (xs @ [x]) ! i) (filter R [0..<length xs])
      = map (\<lambda>i. xs ! i) (filter R [0..<length xs])"
    by (rule map_cong) (auto simp: nth_append)
  have h: "Q (length xs) \<longleftrightarrow> x \<notin> set xs"
    by (simp add: Q_def)
  have "map (\<lambda>i. (xs @ [x]) ! i) (filter Q [0..<length (xs @ [x])])
      = map (\<lambda>i. xs ! i) (filter R [0..<length xs]) @ (if x \<in> set xs then [] else [x])"
    by (simp add: f m h)
  also have "\<dots> = first_occurrences (xs @ [x])"
    using snoc.IH by (simp add: first_occurrences_snoc R_def)
  finally show ?case by (simp add: Q_def)
qed

lemma length_rows [simp]: "length (rows df) = nrows df"
  by (simp add: rows_def)

lemma nth_rows: "i < nrows df \<Longrightarrow> rows df ! i = row df i"
  by (simp add: rows_def)

lemma take_rows: "i \<le> nrows df \<Longrightarrow> take i (rows df) = map (row df) [0..<i]"
  by (simp add: rows_def take_map)

lemma duplicated_nth:
  "i < nrows df \<Longrightarrow> duplicated df ! i \<longleftrightarrow> rows df ! i \<in> set (take i (rows df))"
  by (simp add: duplicated_def nth_rows take_rows)

lemma length_duplicated [simp]: "length (duplicated df) = nrows df"
  by (simp add: duplicated_def)

lemma kept_rows: "kept df = [i \<leftarrow> [0..<nrows df]. rows df ! i \<notin> set (take i (rows df))]"
  unfolding kept_def by (rule filter_cong) (auto simp: duplicated_nth)

lemma kept_bound: "i \<in> set (kept df) \<Longrightarrow> i < nrows df"
  by (simp add: kept_def)

lemma column_len_select_rows [simp]: "column_len (select_rows keep c) = length keep"
  by (cases c) (simp_all add: column_len_def)

lemma column_cells_select_rows:
  "\<forall>i\<in>set keep. i < column_len c \<Longrightarrow>
   column_cells (select_rows keep c) = map (\<lambda>i. column_cells c ! i) keep"
  by (cases c) (simp_all add: column_len_def)

lemma drop_duplicates_kept:
  "drop_duplicates df = map (\<lambda>(name, c). (name, select_rows (kept df) c)) df"
  by (simp add: drop_duplicates_def kept_def)

lemma nrows_drop_duplicates: "nrows (drop_duplicates df) = length (kept df)"
proof (cases df)
  case Nil
  then show ?thesis by (simp add: drop_duplicates_kept kept_def nrows_def)
next
  case (Cons nc df')
  then show ?thesis
    unfolding drop_duplicates_kept by (cases nc) (simp add: nrows_def)
qed

lemma row_drop_duplicates:
  assumes "wf_table df" and "k < length (kept df)"
  shows "row (drop_duplicates df) k = row df (kept df ! k)"
proof -
  have "column_cells (select_rows (kept df) c) ! k = column_cells c ! (kept df ! k)"
    if "(name, c) \<in> set df" for name c
  proof -
    from assms(1) that have "column_len c = nrows df"
      by (auto simp: wf_table_def list_all_iff)
    then have "\<forall>i\<in>set (kept df). i < column_len c"
      by (simp add: kept_bound)
    then show ?thesis
      using assms(2) by (simp add: column_cells_select_rows)
  qed
  then show ?thesis
    by (auto simp: row_def drop_duplicates_kept)
qed

lemma rows_drop_duplicates:
  assumes "wf_table df"
  shows "rows (drop_duplicates df) = first_occurrences (rows df)"
proof -
  have "rows (drop_duplicates df) = map (\<lambda>k. row df (kept df ! k)) [0..<length (kept df)]"
    unfolding rows_def nrows_drop_duplicates
    by (rule map_cong) (simp_all add: row_drop_duplicates [OF assms])
  also have "\<dots> = map (row df) (map (\<lambda>k. kept df ! k) [0..<length (kept df)])"
    by (simp add: comp_def)
  also have "\<dots> = map (row df) (kept df)"
    by (simp only: map_nth)
  also have "\<dots> = map (\<lambda>i. rows df ! i) (kept df)"
    by (rule map_cong) (simp_all add: nth_rows kept_bound)
  also have "\<dots> = first_occurrences (rows df)"
    by (subst first_occurrences_indices) (simp add: kept_rows [symmetric])
  finally show ?thesis .
qed

lemma duplicated_count_kept: "duplicated_count df + length (kept df) = nrows df"
proof -
  define g where "g = (\<lambda>i. row df i \<in> set (map (row df) [0..<i]))"
  have d: "duplicated df = map g [0..<nrows df]"
    by (simp add: duplicated_def g_def)
  have "filter (\<lambda>i. duplicated df ! i) [0..<nrows df] = filter g [0..<nrows df]"
    by (rule filter_cong) (simp_all add: d)
  moreover have "length (filter (\<lambda>d. d) (map g [0..<nrows df])) = length (filter g [0..<nrows df])"
    by (simp add: filter_map comp_def)
  ultimately have "duplicated_count df = length (filter (\<lambda>i. duplicated df ! i) [0..<nrows df])"
    by (simp add: duplicated_count_def d [symmetric])
  then show ?thesis
    using sum_length_filter_compl [of "\<lambda>i. duplicated df ! i" "[0..<nrows df]"]
    by (simp add: kept_def)
qed

lemma nrows_remove_duplicates: "nrows (remove_duplicates df) + duplicated_count df = nrows df"
  using duplicated_count_kept [of df]
  by (auto simp: remove_duplicates_def nrows_drop_duplicates)

lemma rows_remove_duplicates:
  assumes "wf_table df"
  shows "rows (remove_duplicates df) = first_occurrences (rows df)"
proof (cases "duplicated_count df > 0")
  case True
  then show ?thesis by (simp add: remove_duplicates_def rows_drop_duplicates [OF assms])
next
  case False
  then have len: "length (kept df) = nrows df" using duplicated_count_kept [of df] by simp
  have "\<forall>i\<in>set [0..<nrows df]. \<not> duplicated df ! i"
  proof (rule ccontr)
    assume "\<not> (\<forall>i\<in>set [0..<nrows df]. \<not> duplicated df ! i)"
    then obtain i where "i \<in> set [0..<nrows df]" "\<not> \<not> duplicated df ! i" by blast
    then have "length (filter (\<lambda>i. \<not> duplicated df ! i) [0..<nrows df]) < length [0..<nrows df]"
      by (rule length_filter_less)
    with len show False by (simp add: kept_def)
  qed
  then have "kept df = [0..<nrows df]"
    unfolding kept_def by simp
  then have k: "[i \<leftarrow> [0..<nrows df]. rows df ! i \<notin> set (take i (rows df))] = [0..<nrows df]"
    by (simp add: kept_rows [symmetric])
  have "first_occurrences (rows df) = map (\<lambda>i. rows df ! i) [0..<length (rows df)]"
    by (subst first_occurrences_indices) (simp add: k)
  also have "\<dots> = rows df" by (rule map_nth)
  finally show ?thesis using False by (simp add: remove_duplicates_def)
qed

lemma length_fillna [simp]: "length (fillna v xs) = length xs"
  by (cases v) (simp_all add: fillna_def)

lemma column_len_fill_column [simp]: "column_len (fill_column c) = column_len c"
  by (cases c) (simp_all add: fill_column_def column_len_def Let_def)

lemma nrows_map_columns:
  "(\<And>c. column_len (f c) = column_len c) \<Longrightarrow>
   nrows (map (\<lambda>(name, c). (name, f c)) df) = nrows df"
  by (cases df) (auto simp: nrows_def)

lemma nrows_handle_missing_values [simp]: "nrows (handle_missing_values df) = nrows df"
  by (simp add: handle_missing_values_def Let_def nrows_map_columns)

lemma nrows_standardize_data_types [simp]: "nrows (standardize_data_types df) = nrows df"
proof -
  have "nrows (map (\<lambda>(name, c). (name, case c of Object xs \<Rightarrow> Object (map (map_option strip) xs)
      | Numeric xs \<Rightarrow> c)) df) = nrows df"
    by (rule nrows_map_columns) (simp add: column_len_def split: column.split)
  then show ?thesis by (simp add: standardize_data_types_def)
qed

lemma length_first_occurrences_rows:
  "length (first_occurrences (rows df)) = length (kept df)"
  by (subst first_occurrences_indices) (simp add: kept_rows [symmetric])

lemma duplicated_count_rows:
  "duplicated_count df = nrows df - length (first_occurrences (rows df))"
  using duplicated_count_kept [of df] by (simp add: length_first_occurrences_rows)

lemma nrows_clean_table: "nrows (fst (clean_table df)) = nrows df - duplicated_count df"
  using nrows_remove_duplicates [of df] by (simp add: clean_table_def Let_def)

lemma clean_table_stats:
  "stat (snd (clean_table df)) ''initial_rows'' = Some (int (nrows df))"
  "stat (snd (clean_table df)) ''initial_columns'' = Some (int (ncols df))"
  "stat (snd (clean_table df)) ''missing_values_found'' = Some (int (missing_count df))"
  "stat (snd (clean_table df)) ''duplicate_rows_found'' = Some (int (duplicated_count df))"
  "stat (snd (clean_table df)) ''final_rows'' = Some (int (nrows (fst (clean_table df))))"
  "stat (snd (clean_table df)) ''final_columns'' = Some (int (ncols (fst (clean_table df))))"
  "stat (snd (clean_table df)) ''rows_removed''
     = Some (int (nrows df) - int (nrows (fst (clean_table df))))"
  by (simp_all add: clean_table_def stat_def Let_def)

text \<open>
  Claim C7. \<open>clean_csv\<close> deduplicates first, then imputes, then trims, so medians and
  modes are computed on the deduplicated table. Imputation and trimming keep the row
  count; deduplication removes exactly the rows \<open>duplicated\<close> marks. Hence
  \<open>final_rows = initial_rows - duplicate_rows_found\<close> and
  \<open>rows_removed = duplicate_rows_found\<close> for every table.
\<close>

theorem clean_table_row_accounting:
  "fst (clean_table df) = standardize_data_types (handle_missing_values (remove_duplicates df))
   \<and> nrows (remove_duplicates df) = nrows df - duplicated_count df
   \<and> nrows (handle_missing_values t) = nrows t
   \<and> nrows (standardize_data_types t) = nrows t
   \<and> stat (snd (clean_table df)) ''initial_rows'' = Some (int (nrows df))
   \<and> stat (snd (clean_table df)) ''duplicate_rows_found'' = Some (int (duplicated_count df))
   \<and> stat (snd (clean_table df)) ''final_rows''
        = Some (int (nrows df) - int (duplicated_count df))
   \<and> stat (snd (clean_table df)) ''rows_removed'' = Some (int (duplicated_count df))"
proof -
  have le: "duplicated_count df \<le> nrows df"
    using duplicated_count_kept [of df] by simp
  have "nrows (remove_duplicates df) = nrows df - duplicated_count df"
    using nrows_remove_duplicates [of df] by simp
  moreover have "fst (clean_table df)
      = standardize_data_types (handle_missing_values (remove_duplicates df))"
    by (simp add: clean_table_def Let_def)
  ultimately show ?thesis
    using le by (simp add: clean_table_stats nrows_clean_table of_nat_diff)
qed

text \<open>
  Claim C4. The rows left by \<open>_remove_duplicates\<close> are the first occurrences of the
  distinct rows of the table, in their original order. A row is a duplicate exactly when
  an earlier row has equal values in all columns, absent cells being equal to each other.
  For rows \<open>[A, B, A, C, A]\<close> with \<open>A\<close>, \<open>B\<close>, \<open>C\<close> distinct, two rows are removed, three
  remain and their order is \<open>[A, B, C]\<close>.
\<close>

theorem remove_duplicates_keeps_first_occurrences:
  assumes "wf_table df"
  shows "rows (remove_duplicates df) = first_occurrences (rows df)
   \<and> (\<forall>i<nrows df. duplicated df ! i \<longleftrightarrow> (\<exists>j<i. row df j = row df i))
   \<and> (rows df = [A, B, A, C, A] \<and> distinct [A, B, C] \<longrightarrow>
        rows (remove_duplicates df) = [A, B, C]
        \<and> stat (snd (clean_table df)) ''duplicate_rows_found'' = Some 2
        \<and> stat (snd (clean_table df)) ''rows_removed'' = Some 2
        \<and> stat (snd (clean_table df)) ''final_rows'' = Some 3
        \<and> nrows (fst (clean_table df)) = 3)"
proof (intro conjI allI impI)
  show r: "rows (remove_duplicates df) = first_occurrences (rows df)"
    by (rule rows_remove_duplicates [OF assms])
  show "duplicated df ! i \<longleftrightarrow> (\<exists>j<i. row df j = row df i)" if "i < nrows df" for i
  proof -
    have "duplicated df ! i \<longleftrightarrow> row df i \<in> row df ` {0..<i}"
      using that by (simp add: duplicated_def)
    also have "\<dots> \<longleftrightarrow> (\<exists>j<i. row df j = row df i)"
      by (metis atLeastLessThan_iff image_iff zero_le)
    finally show ?thesis .
  qed
  assume ex: "rows df = [A, B, A, C, A] \<and> distinct [A, B, C]"
  then have fo: "first_occurrences (rows df) = [A, B, C]" by auto
  from ex have n: "nrows df = 5" using length_rows [of df] by simp
  have d: "duplicated_count df = 2"
    by (simp add: duplicated_count_rows fo n)
  show "rows (remove_duplicates df) = [A, B, C]" using r fo by simp
  show "stat (snd (clean_table df)) ''duplicate_rows_found'' = Some 2"
    by (simp add: clean_table_stats d)
  show "nrows (fst (clean_table df)) = 3"
    by (simp add: nrows_clean_table n d)
  then show "stat (snd (clean_table df)) ''rows_removed'' = Some 2"
    and "stat (snd (clean_table df)) ''final_rows'' = Some 3"
    by (simp_all add: clean_table_stats n)
qed

theorem remove_duplicates_keeps_first_occurrences_witness:
  "rows (remove_duplicates abaca_table) =
     [[None, Some (Num 1)], [Some (Str ''Izmir''), Some (Num 2)], [Some (Str ''Ankara''), Some (Num 3)]]
   \<and> stat (snd (clean_table abaca_table)) ''duplicate_rows_found'' = Some 2
   \<and> stat (snd (clean_table abaca_table)) ''rows_removed'' = Some 2
   \<and> stat (snd (clean_table abaca_table)) ''final_rows'' = Some 3"
proof -
  have wf: "wf_table abaca_table"
    by (simp add: wf_table_def abaca_table_def nrows_def column_len_def)
  have "[0..<5] = [0, 1, 2, 3, 4]" by (simp add: upt_rec)
  then have r: "rows abaca_table =
      [[None, Some (Num 1)], [Some (Str ''Izmir''), Some (Num 2)], [None, Some (Num 1)],
       [Some (Str ''Ankara''), Some (Num 3)], [None, Some (Num 1)]]"
    by (simp add: rows_def row_def abaca_table_def nrows_def column_len_def)
  show ?thesis
    using remove_duplicates_keeps_first_occurrences [OF wf,
        of "[None, Some (Num 1)]" "[Some (Str ''Izmir''), Some (Num 2)]"
           "[Some (Str ''Ankara''), Some (Num 3)]"] r
    by simp
qed

theorem clean_table_row_accounting_witness:
  "stat (snd (clean_table abaca_table)) ''initial_rows'' = Some 5
   \<and> nrows (remove_duplicates abaca_table) = 3
   \<and> stat (snd (clean_table abaca_table)) ''final_rows'' = Some 3"
proof -
  have wf: "wf_table abaca_table"
    by (simp add: wf_table_def abaca_table_def nrows_def column_len_def)
  have "[0..<5] = [0, 1, 2, 3, 4]" by (simp add: upt_rec)
  then have r: "rows abaca_table =
      [[None, Some (Num 1)], [Some (Str ''Izmir''), Some (Num 2)], [None, Some (Num 1)],
       [Some (Str ''Ankara''), Some (Num 3)], [None, Some (Num 1)]]"
    by (simp add: rows_def row_def abaca_table_def nrows_def column_len_def)
  have n: "nrows abaca_table = 5"
    by (simp add: abaca_table_def nrows_def column_len_def)
  have d: "duplicated_count abaca_table = 2"
    by (simp add: duplicated_count_rows r n)
  show ?thesis
    using clean_table_row_accounting [of abaca_table] by (simp add: n d)
qed

section \<open>Properties of the data cleaner: imputation\<close>

lemma isnull_count_pos: "isnull_any c \<Longrightarrow> 0 < isnull_count c"
  by (auto simp: isnull_any_def isnull_count_def filter_empty_conv)

lemma missing_count_pos:
  assumes "(name, c) \<in> set df" "isnull_any c"
  shows "0 < missing_count df"
proof -
  have "isnull_count c \<in> set (map (\<lambda>(name, c). isnull_count c) df)"
    using assms(1) by force
  then have "isnull_count c \<le> missing_count df"
    unfolding missing_count_def by (simp add: member_le_sum_list)
  with isnull_count_pos [OF assms(2)] show ?thesis by simp
qed

lemma handle_missing_values_nth:
  assumes "k < length df" "df ! k = (name, c)" "isnull_any c"
  shows "handle_missing_values df ! k = (name, fill_column c)"
proof -
  have "(name, c) \<in> set df" using assms(1,2) by (metis nth_mem)
  then have "missing_count df \<noteq> 0" using missing_count_pos assms(3) by fastforce
  then show ?thesis using assms(1,2) by (simp add: handle_missing_values_def Let_def)
qed

lemma fillna_eq: "fillna v xs = map (\<lambda>x. case x of None \<Rightarrow> v | Some y \<Rightarrow> Some y) xs"
proof (cases v)
  case None
  have "map (\<lambda>x. case x of None \<Rightarrow> None | Some y \<Rightarrow> Some y) xs = xs"
    by (induction xs) (auto split: option.split)
  then show ?thesis unfolding None by (simp add: fillna_def)
next
  case (Some m)
  show ?thesis unfolding Some by (simp add: fillna_def)
qed

lemma median_present:
  assumes "present xs \<noteq> []"
  shows "median xs = Some (let s = sort (present xs); n = length s in
           if odd n then s ! (n div 2) else (s ! (n div 2 - 1) + s ! (n div 2)) / 2)"
proof -
  have "sort (present xs) \<noteq> []"
    using assms by (metis length_0_conv length_sort)
  then show ?thesis
    by (auto simp: median_def Let_def odd_iff_mod_2_eq_one)
qed

lemma median_absent: "present xs = [] \<Longrightarrow> median xs = None"
  by (simp add: median_def)

lemma standardize_nth_numeric:
  "k < length df \<Longrightarrow> df ! k = (name, Numeric xs) \<Longrightarrow>
   standardize_data_types df ! k = (name, Numeric xs)"
  by (simp add: standardize_data_types_def)

lemma standardize_nth_object:
  "k < length df \<Longrightarrow> df ! k = (name, Object xs) \<Longrightarrow>
   standardize_data_types df ! k = (name, Object (map (map_option strip) xs))"
  by (simp add: standardize_data_types_def)

lemma length_handle_missing_values [simp]: "length (handle_missing_values df) = length df"
  by (simp add: handle_missing_values_def Let_def)

text \<open>
  Claim C3. In \<open>clean_csv\<close>, a numeric column of the deduplicated table that has an
  absent cell gets every absent cell replaced by the median of its present values, the
  other cells unchanged, and trimming leaves it as it is. With present values the median
  is the middle of the sorted values, or the average of the two middle ones when their
  count is even; with none it is \<open>NaN\<close> and the cells stay absent. The column
  \<open>[10, None, 30]\<close> becomes \<open>[10, 20, 30]\<close>.
\<close>

theorem numeric_imputation_median:
  assumes "k < length (remove_duplicates df)"
    and "remove_duplicates df ! k = (name, Numeric xs)"
    and "None \<in> set xs"
  shows "handle_missing_values (remove_duplicates df) ! k =
           (name, Numeric (map (\<lambda>x. case x of None \<Rightarrow> median xs | Some v \<Rightarrow> Some v) xs))
   \<and> fst (clean_table df) ! k =
           (name, Numeric (map (\<lambda>x. case x of None \<Rightarrow> median xs | Some v \<Rightarrow> Some v) xs))
   \<and> (present xs \<noteq> [] \<longrightarrow>
         median xs = Some (let s = sort (present xs); n = length s in
           if odd n then s ! (n div 2) else (s ! (n div 2 - 1) + s ! (n div 2)) / 2))
   \<and> fst (clean_table [(name, Numeric [Some 10, None, Some 30])]) =
         [(name, Numeric [Some 10, Some 20, Some 30])]"
proof (intro conjI impI)
  have "isnull_any (Numeric xs)" using assms(3) by (force simp: isnull_any_def)
  from handle_missing_values_nth [OF assms(1,2) this]
  show h: "handle_missing_values (remove_duplicates df) ! k =
      (name, Numeric (map (\<lambda>x. case x of None \<Rightarrow> median xs | Some v \<Rightarrow> Some v) xs))"
    using assms(3) by (simp add: fill_column_def isnull_any_def fillna_eq image_iff)
  show "fst (clean_table df) ! k =
      (name, Numeric (map (\<lambda>x. case x of None \<Rightarrow> median xs | Some v \<Rightarrow> Some v) xs))"
    using assms(1) h by (simp add: clean_table_def Let_def standardize_nth_numeric)
  show "median xs = Some (let s = sort (present xs); n = length s in
           if odd n then s ! (n div 2) else (s ! (n div 2 - 1) + s ! (n div 2)) / 2)"
    if "present xs \<noteq> []" using that by (rule median_present)
  show "fst (clean_table [(name, Numeric [Some 10, None, Some 30])]) =
         [(name, Numeric [Some 10, Some 20, Some 30])]"
    by code_simp
qed

theorem numeric_imputation_median_witness:
  "fst (clean_table amounts_table) ! 0 =
     (''amount'', Numeric [Some 4, Some (5 / 2), Some 1, Some 3, Some 2])"
proof -
  have r: "remove_duplicates amounts_table = amounts_table"
    by code_simp
  have m: "median [Some 4, None, Some 1, Some 3, Some 2] = Some (5 / 2)"
    by code_simp
  have "0 < length (remove_duplicates amounts_table)"
    and "remove_duplicates amounts_table ! 0
           = (''amount'', Numeric [Some 4, None, Some 1, Some 3, Some 2])"
    and "None \<in> set [Some (4::rat), None, Some 1, Some 3, Some 2]"
    by (simp_all add: r) (simp_all add: amounts_table_def)
  from numeric_imputation_median [OF this] show ?thesis
    by (simp add: m)
qed

lemma mode_Nil: "present xs = [] \<Longrightarrow> mode xs = []"
  by (simp add: mode_def)

lemma fold_max_bounds:
  fixes ns :: "nat list"
  shows "(\<forall>n\<in>set ns. n \<le> fold max ns a) \<and> a \<le> fold max ns a
    \<and> (fold max ns a = a \<or> fold max ns a \<in> set ns)"
proof (induction ns arbitrary: a)
  case Nil
  then show ?case by simp
next
  case (Cons n ns)
  from Cons.IH [of "max n a"] show ?case
    by (auto simp: max_def split: if_splits)
qed

lemma sort_head_least:
  fixes cs :: "'a::linorder list"
  assumes "cs \<noteq> []"
  shows "sort cs ! 0 \<in> set cs \<and> (\<forall>c\<in>set cs. sort cs ! 0 \<le> c)"
proof -
  obtain h t where ht: "sort cs = h # t"
    using assms by (metis length_0_conv length_sort neq_Nil_conv)
  have "sorted (h # t)" using sorted_sort [of cs] ht by simp
  then have "\<forall>c\<in>set (h # t). h \<le> c" by auto
  moreover have "set (h # t) = set cs" using ht by (metis set_sort)
  ultimately show ?thesis using ht by auto
qed

lemma mode_head:
  assumes "present xs \<noteq> []"
  shows "mode xs \<noteq> [] \<and> mode xs ! 0 \<in> set (present xs)
    \<and> (\<forall>v\<in>set (present xs).
          count_list (present xs) v \<le> count_list (present xs) (mode xs ! 0))
    \<and> (\<forall>v\<in>set (present xs).
          count_list (present xs) v = count_list (present xs) (mode xs ! 0) \<longrightarrow> mode xs ! 0 \<le> v)"
proof -
  define vs where "vs = present xs"
  define top where "top = fold max (map (count_list vs) vs) 0"
  define cs where "cs = [v \<leftarrow> remdups vs. count_list vs v = top]"
  have m: "mode xs = sort cs"
    by (simp add: mode_def vs_def top_def cs_def Let_def)
  have b: "\<forall>v\<in>set vs. count_list vs v \<le> top"
    using fold_max_bounds [of "map (count_list vs) vs" 0] by (simp add: top_def)
  have "vs \<noteq> []" using assms by (simp add: vs_def)
  then obtain v0 where v0: "v0 \<in> set vs" by (meson last_in_set)
  then have "0 < count_list vs v0" using count_list_0_iff [of vs v0] by simp
  with b v0 have "top \<noteq> 0" by force
  then have "top \<in> set (map (count_list vs) vs)"
    using fold_max_bounds [of "map (count_list vs) vs" 0] by (auto simp: top_def)
  then obtain w where w: "w \<in> set vs" "count_list vs w = top" by auto
  then have ne: "cs \<noteq> []" by (auto simp: cs_def filter_empty_conv)
  from sort_head_least [OF ne]
  have h: "sort cs ! 0 \<in> set cs" and l: "\<forall>c\<in>set cs. sort cs ! 0 \<le> c" by simp_all
  from h have hv: "sort cs ! 0 \<in> set vs" and ht: "count_list vs (sort cs ! 0) = top"
    by (simp_all add: cs_def)
  have "sort cs \<noteq> []" using ne by (metis length_0_conv length_sort)
  moreover have "\<forall>v\<in>set vs. count_list vs v = count_list vs (sort cs ! 0) \<longrightarrow> sort cs ! 0 \<le> v"
    using l ht by (simp add: cs_def)
  ultimately show ?thesis
    using hv ht b unfolding m vs_def [symmetric] by simp
qed

text \<open>
  Claim C2, amended. In \<open>clean_csv\<close>, a text column of the deduplicated table that has
  an absent cell gets every absent cell replaced by one fill value, which is then trimmed
  like every other cell. With no present value the fill value is \<open>Unknown\<close>. Otherwise it
  is a most frequent present value, and among the most frequent ones the least in string
  order (\<open>Series.mode\<close> returns the modes sorted and the code takes the first).
\<close>

theorem categorical_imputation_mode:
  assumes "k < length (remove_duplicates df)"
    and "remove_duplicates df ! k = (name, Object xs)"
    and "None \<in> set xs"
  shows "\<exists>fill.
     handle_missing_values (remove_duplicates df) ! k =
       (name, Object (map (\<lambda>x. case x of None \<Rightarrow> Some fill | Some v \<Rightarrow> Some v) xs))
     \<and> fst (clean_table df) ! k =
       (name, Object (map (\<lambda>x. case x of None \<Rightarrow> Some (strip fill) | Some v \<Rightarrow> Some (strip v)) xs))
     \<and> (present xs = [] \<longrightarrow> fill = ''Unknown'')
     \<and> (present xs \<noteq> [] \<longrightarrow>
          fill \<in> set (present xs)
          \<and> (\<forall>v\<in>set (present xs). count_list (present xs) v \<le> count_list (present xs) fill)
          \<and> (\<forall>v\<in>set (present xs).
                count_list (present xs) v = count_list (present xs) fill \<longrightarrow> fill \<le> v))"
proof -
  define fill where "fill = (if length (mode xs) > 0 then mode xs ! 0 else ''Unknown'')"
  have "isnull_any (Object xs)" using assms(3) by (force simp: isnull_any_def)
  from handle_missing_values_nth [OF assms(1,2) this]
  have "handle_missing_values (remove_duplicates df) ! k = (name, fill_column (Object xs))" .
  moreover have "fill_column (Object xs) = Object (fillna (Some fill) xs)"
    using \<open>isnull_any (Object xs)\<close> by (simp add: fill_column_def fill_def Let_def)
  ultimately have h: "handle_missing_values (remove_duplicates df) ! k =
      (name, Object (map (\<lambda>x. case x of None \<Rightarrow> Some fill | Some v \<Rightarrow> Some v) xs))"
    by (simp add: fillna_eq)
  have "map (map_option strip) (map (\<lambda>x. case x of None \<Rightarrow> Some fill | Some v \<Rightarrow> Some v) xs)
      = map (\<lambda>x. case x of None \<Rightarrow> Some (strip fill) | Some v \<Rightarrow> Some (strip v)) xs"
    by (auto split: option.split)
  then have c: "fst (clean_table df) ! k =
      (name, Object (map (\<lambda>x. case x of None \<Rightarrow> Some (strip fill) | Some v \<Rightarrow> Some (strip v)) xs))"
    using assms(1) h by (simp add: clean_table_def Let_def standardize_nth_object)
  have u: "fill = ''Unknown''" if "present xs = []"
    using that by (simp add: fill_def mode_Nil)
  have p: "fill \<in> set (present xs)
          \<and> (\<forall>v\<in>set (present xs). count_list (present xs) v \<le> count_list (present xs) fill)
          \<and> (\<forall>v\<in>set (present xs).
                count_list (present xs) v = count_list (present xs) fill \<longrightarrow> fill \<le> v)"
    if "present xs \<noteq> []"
    using mode_head [OF that] by (simp add: fill_def)
  from h c u p show ?thesis by blast
qed

text \<open>
  Claim C2 as stated fails on a tie: in the column \<open>[y, x, None]\<close> the value encountered
  first is \<open>y\<close>, and the absent cell is filled with \<open>x\<close>.
\<close>

theorem categorical_tie_not_first_encountered:
  "fst (clean_table tied_table) = [(''city'', Object [Some ''y'', Some ''x'', Some ''x''])]
   \<and> mode_first_encountered [Some ''y'', Some ''x'', None] = Some ''y''"
  by code_simp

theorem categorical_imputation_mode_witness:
  "fst (clean_table cities_table) ! 1 =
     (''city'', Object [Some ''x'', Some ''x'', Some ''x'', Some ''y''])"
proof -
  have r: "remove_duplicates cities_table = cities_table"
    by code_simp
  have p: "present [Some ''x'', Some ''x'', None, Some ''y''] = [''x'', ''x'', ''y'']"
    by (simp add: present_def)
  have s: "strip ''x'' = ''x''" "strip ''y'' = ''y''"
    by (simp_all add: strip_def is_space_def)
  have "1 < length (remove_duplicates cities_table)"
    and "remove_duplicates cities_table ! 1
           = (''city'', Object [Some ''x'', Some ''x'', None, Some ''y''])"
    and "None \<in> set [Some ''x'', Some ''x'', None, Some ''y'']"
    by (simp_all add: r) (simp_all add: cities_table_def)
  from categorical_imputation_mode [OF this] obtain fill where
    c: "fst (clean_table cities_table) ! 1 =
      (''city'', Object (map (\<lambda>x. case x of None \<Rightarrow> Some (strip fill) | Some v \<Rightarrow> Some (strip v))
         [Some ''x'', Some ''x'', None, Some ''y'']))"
    and f: "fill \<in> set [''x'', ''x'', ''y'']"
      "\<forall>v\<in>set [''x'', ''x'', ''y''].
         count_list [''x'', ''x'', ''y''] v \<le> count_list [''x'', ''x'', ''y''] fill"
    unfolding p by auto
  from f have "fill = ''x''" by auto
  with c show ?thesis by (simp add: s)
qed

section \<open>Properties of the data cleaner: a second pass\<close>

lemma set_present: "set (present xs) = {v. Some v \<in> set xs}"
  by (force simp: present_def)

lemma distinct_first_occurrences_id: "distinct xs \<Longrightarrow> first_occurrences xs = xs"
proof (induction xs rule: first_occurrences.induct)
  case 1
  then show ?case by simp
next
  case (2 x xs)
  then have "[y \<leftarrow> xs. y \<noteq> x] = xs" by (auto simp: filter_id_conv)
  with 2 show ?case by simp
qed

lemma rows_drop_duplicates_kept:
  assumes "wf_table df"
  shows "rows (drop_duplicates df) = map (row df) (kept df)"
proof -
  have "rows (drop_duplicates df) = map (\<lambda>k. row df (kept df ! k)) [0..<length (kept df)]"
    unfolding rows_def nrows_drop_duplicates
    by (rule map_cong) (simp_all add: row_drop_duplicates [OF assms])
  also have "\<dots> = map (row df) (map (\<lambda>k. kept df ! k) [0..<length (kept df)])"
    by (simp add: comp_def)
  also have "\<dots> = map (row df) (kept df)"
    by (simp only: map_nth)
  finally show ?thesis .
qed

lemma kept_covers_rows:
  assumes "wf_table df" "i < nrows df"
  shows "\<exists>j\<in>set (kept df). row df j = row df i"
proof -
  have "row df i \<in> set (rows df)" using assms(2) by (simp add: rows_def)
  also have "set (rows df) = set (first_occurrences (rows df))" by simp
  also have "\<dots> = set (map (row df) (kept df))"
    using rows_drop_duplicates [OF assms(1)] rows_drop_duplicates_kept [OF assms(1)] by simp
  finally show ?thesis by auto
qed

lemma row_nth:
  "p < length df \<Longrightarrow> df ! p = (name, c) \<Longrightarrow> row df i ! p = column_cells c ! i"
  by (simp add: row_def)

lemma drop_duplicates_keeps_present:
  assumes wf: "wf_table df"
    and col: "(name, Numeric xs) \<in> set df"
    and pr: "xs = [] \<or> present xs \<noteq> []"
  shows "None \<notin> set (map (\<lambda>i. xs ! i) (kept df)) \<or> present (map (\<lambda>i. xs ! i) (kept df)) \<noteq> []"
proof (cases "kept df = []")
  case True
  then show ?thesis by simp
next
  case False
  then obtain j0 where "j0 \<in> set (kept df)" by (meson last_in_set)
  then have pos: "0 < nrows df" using kept_bound [of j0 df] by simp
  from wf col have len: "length xs = nrows df"
    by (auto simp: wf_table_def list_all_iff column_len_def)
  with pos pr have "present xs \<noteq> []" by auto
  then obtain v where "Some v \<in> set xs"
    using set_present [of xs] by (metis (mono_tags, lifting) last_in_set mem_Collect_eq)
  then obtain i where i: "i < length xs" "xs ! i = Some v" by (auto simp: in_set_conv_nth)
  from col obtain p where p: "p < length df" "df ! p = (name, Numeric xs)"
    by (auto simp: in_set_conv_nth)
  from kept_covers_rows [OF wf] i len obtain j where j: "j \<in> set (kept df)" "row df j = row df i"
    by auto
  then have jl: "j < length xs" using kept_bound [of j df] len by simp
  from j(2) have "row df j ! p = row df i ! p" by simp
  then have "column_cells (Numeric xs) ! j = column_cells (Numeric xs) ! i"
    using p by (simp add: row_nth)
  with i jl have "xs ! j = Some v" by (cases "xs ! j") simp_all
  with j(1) have "Some v \<in> set (map (\<lambda>i. xs ! i) (kept df))" by force
  then have "v \<in> set (present (map (\<lambda>i. xs ! i) (kept df)))" by (simp add: set_present)
  then show ?thesis by auto
qed

lemma remove_duplicates_fillable:
  assumes "wf_table df" "no_absent_numeric_column df"
  shows "\<forall>(name, c)\<in>set (remove_duplicates df). fillable c"
proof (cases "duplicated_count df > 0")
  case False
  have "fillable c" if "(name, c) \<in> set df" for name c
  proof -
    from that assms(2) have "not_all_absent c"
      by (auto simp: no_absent_numeric_column_def list_all_iff)
    then show ?thesis by (cases c) auto
  qed
  with False show ?thesis
    by (auto simp: remove_duplicates_def)
next
  case True
  have "fillable (select_rows (kept df) c)" if "(name, c) \<in> set df" for name c
  proof (cases c)
    case (Numeric xs)
    from that assms(2) have "not_all_absent c"
      by (auto simp: no_absent_numeric_column_def list_all_iff)
    then have "xs = [] \<or> present xs \<noteq> []" by (simp add: Numeric)
    from drop_duplicates_keeps_present [OF assms(1) that [unfolded Numeric] this]
    show ?thesis by (simp add: Numeric)
  next
    case (Object xs)
    then show ?thesis by simp
  qed
  with True show ?thesis
    by (auto simp: remove_duplicates_def drop_duplicates_kept)
qed

lemma fill_column_no_null:
  assumes "fillable c"
  shows "\<not> isnull_any (fill_column c)"
proof (cases "isnull_any c")
  case False
  then show ?thesis by (simp add: fill_column_def)
next
  case True
  show ?thesis
  proof (cases c)
    case (Numeric xs)
    with True assms have "present xs \<noteq> []" by (auto simp: isnull_any_def)
    from median_present [OF this] obtain m where "median xs = Some m" by blast
    with True Numeric show ?thesis
      by (auto simp: fill_column_def isnull_any_def fillna_def split: option.splits)
  next
    case (Object xs)
    with True show ?thesis
      by (auto simp: fill_column_def isnull_any_def fillna_def Let_def split: option.splits)
  qed
qed

lemma isnull_count_0_iff: "isnull_count c = 0 \<longleftrightarrow> \<not> isnull_any c"
proof -
  have "(\<forall>x\<in>set (column_cells c). x \<noteq> None) \<longleftrightarrow> None \<notin> set (column_cells c)"
    by (rule iffI) (fast, metis)
  then show ?thesis
    by (simp add: isnull_count_def isnull_any_def filter_empty_conv del: not_None_eq)
qed

lemma missing_count_0_iff:
  "missing_count df = 0 \<longleftrightarrow> (\<forall>(name, c)\<in>set df. \<not> isnull_any c)"
proof -
  have "missing_count df = 0 \<longleftrightarrow> (\<forall>nc\<in>set df. isnull_count (snd nc) = 0)"
    by (auto simp: missing_count_def case_prod_beta)
  then show ?thesis by (auto simp: isnull_count_0_iff)
qed

lemma handle_missing_values_no_null:
  assumes "\<forall>(name, c)\<in>set df. fillable c"
  shows "missing_count (handle_missing_values df) = 0"
proof (cases "missing_count df = 0")
  case True
  then show ?thesis by (simp add: handle_missing_values_def)
next
  case False
  then have "handle_missing_values df = map (\<lambda>(name, c). (name, fill_column c)) df"
    by (simp add: handle_missing_values_def)
  moreover have "\<not> isnull_any (fill_column c)" if "(name, c) \<in> set df" for name c
    using assms that by (intro fill_column_no_null) auto
  ultimately show ?thesis
    by (auto simp: missing_count_0_iff)
qed

lemma isnull_any_strip:
  "isnull_any (case c of Object xs \<Rightarrow> Object (map (map_option strip) xs) | Numeric xs \<Rightarrow> c)
     \<longleftrightarrow> isnull_any c"
  by (cases c) (auto simp: isnull_any_def)

lemma missing_count_standardize:
  "missing_count df = 0 \<Longrightarrow> missing_count (standardize_data_types df) = 0"
  unfolding missing_count_0_iff
  by (auto simp: standardize_data_types_def isnull_any_strip)

lemma missing_count_clean_table:
  assumes "wf_table df" "no_absent_numeric_column df"
  shows "missing_count (fst (clean_table df)) = 0"
proof -
  have "missing_count (handle_missing_values (remove_duplicates df)) = 0"
    by (rule handle_missing_values_no_null) (rule remove_duplicates_fillable [OF assms])
  then show ?thesis
    by (simp add: clean_table_def Let_def missing_count_standardize)
qed

lemma duplicated_count_distinct: "distinct (rows df) \<Longrightarrow> duplicated_count df = 0"
  by (simp add: duplicated_count_rows distinct_first_occurrences_id)

lemma trims_apart_Object: "trims_apart (Object xs) \<longleftrightarrow> inj_on strip (set (present xs))"
  by (simp add: distinct_map)

lemma wf_table_drop_duplicates: "wf_table (drop_duplicates df)"
  unfolding wf_table_def list_all_iff nrows_drop_duplicates
  by (auto simp: drop_duplicates_kept)

lemma wf_table_remove_duplicates: "wf_table df \<Longrightarrow> wf_table (remove_duplicates df)"
  by (simp add: remove_duplicates_def wf_table_drop_duplicates)

lemma cells_select_rows_subset:
  assumes "wf_table df" "(name, c) \<in> set df"
  shows "set (column_cells (select_rows (kept df) c)) \<subseteq> set (column_cells c)"
proof -
  from assms have len: "column_len c = nrows df"
    by (auto simp: wf_table_def list_all_iff)
  then have b: "\<forall>i\<in>set (kept df). i < column_len c" by (simp add: kept_bound)
  then have "column_cells (select_rows (kept df) c) = map (\<lambda>i. column_cells c ! i) (kept df)"
    by (rule column_cells_select_rows)
  with b show ?thesis by (auto simp: column_len_def)
qed

lemma remove_duplicates_columns:
  assumes "wf_table df" "(name, c') \<in> set (remove_duplicates df)"
  shows "\<exists>c. (name, c) \<in> set df \<and> set (column_cells c') \<subseteq> set (column_cells c)
    \<and> (case c of Numeric _ \<Rightarrow> (\<exists>ys. c' = Numeric ys) | Object _ \<Rightarrow> (\<exists>ys. c' = Object ys))"
proof (cases "duplicated_count df > 0")
  case False
  with assms(2) have "(name, c') \<in> set df" by (simp add: remove_duplicates_def)
  then show ?thesis by (cases c') auto
next
  case True
  with assms(2) obtain c where c: "(name, c) \<in> set df" "c' = select_rows (kept df) c"
    by (auto simp: remove_duplicates_def drop_duplicates_kept)
  have "set (column_cells c') \<subseteq> set (column_cells c)"
    using cells_select_rows_subset [OF assms(1) c(1)] c(2) by simp
  moreover have "case c of Numeric _ \<Rightarrow> (\<exists>ys. c' = Numeric ys) | Object _ \<Rightarrow> (\<exists>ys. c' = Object ys)"
    using c(2) by (cases c) simp_all
  ultimately show ?thesis using c(1) by (intro exI [of _ c] conjI)
qed

lemma missing_count_remove_duplicates:
  assumes "wf_table df" "missing_count df = 0"
  shows "missing_count (remove_duplicates df) = 0"
  unfolding missing_count_0_iff
proof (intro ballI)
  fix nc assume nc: "nc \<in> set (remove_duplicates df)"
  obtain name c' where e: "nc = (name, c')" by (cases nc)
  from remove_duplicates_columns [OF assms(1) nc [unfolded e]] obtain c where
    c: "(name, c) \<in> set df" "set (column_cells c') \<subseteq> set (column_cells c)" by blast
  from assms(2) c(1) have "\<not> isnull_any c" unfolding missing_count_0_iff by blast
  with c(2) show "case nc of (name, c) \<Rightarrow> \<not> isnull_any c"
    by (auto simp: e isnull_any_def)
qed

lemma present_cells: "set (present xs) = {v. Some (Str v) \<in> set (column_cells (Object xs))}"
proof -
  have "Some (Str v) \<in> map_option Str ` set xs \<longleftrightarrow> Some v \<in> set xs" for v
  proof
    assume "Some (Str v) \<in> map_option Str ` set xs"
    then obtain x where x: "x \<in> set xs" "Some (Str v) = map_option Str x" by auto
    have "x = Some v"
    proof (cases x)
      case None
      with x(2) show ?thesis by simp
    next
      case (Some y)
      with x(2) show ?thesis by simp
    qed
    with x(1) show "Some v \<in> set xs" by simp
  next
    assume "Some v \<in> set xs"
    then have "map_option Str (Some v) \<in> map_option Str ` set xs" by (rule imageI)
    then show "Some (Str v) \<in> map_option Str ` set xs" by simp
  qed
  then show ?thesis by (simp add: set_present)
qed

lemma trimming_injective_remove_duplicates:
  assumes "wf_table df" "trimming_injective df"
  shows "trimming_injective (remove_duplicates df)"
  unfolding trimming_injective_def list_all_iff
proof (intro ballI)
  fix nc assume nc: "nc \<in> set (remove_duplicates df)"
  obtain name c' where e: "nc = (name, c')" by (cases nc)
  from remove_duplicates_columns [OF assms(1) nc [unfolded e]] obtain c where
    c: "(name, c) \<in> set df" "set (column_cells c') \<subseteq> set (column_cells c)"
    and k: "case c of Numeric _ \<Rightarrow> (\<exists>ys. c' = Numeric ys) | Object _ \<Rightarrow> (\<exists>ys. c' = Object ys)"
    by blast
  from assms(2) c(1) have ta: "trims_apart c"
    by (auto simp: trimming_injective_def list_all_iff)
  have "trims_apart c'"
  proof (cases c)
    case (Numeric xs)
    with k show ?thesis by auto
  next
    case (Object xs)
    with k obtain ys where ys: "c' = Object ys" by auto
    from c(2) have "set (present ys) \<subseteq> set (present xs)"
      unfolding present_cells Object ys by blast
    moreover from ta have "inj_on strip (set (present xs))"
      by (simp add: Object trims_apart_Object del: trims_apart.simps)
    ultimately have "inj_on strip (set (present ys))" by (rule inj_on_subset [rotated])
    then show ?thesis by (simp add: ys trims_apart_Object del: trims_apart.simps)
  qed
  then show "case nc of (name, c) \<Rightarrow> trims_apart c" by (simp add: e)
qed

lemma column_cells_strip:
  "column_cells (case c of Object xs \<Rightarrow> Object (map (map_option strip) xs) | Numeric xs \<Rightarrow> c)
     = map (map_option strip_cell) (column_cells c)"
  by (cases c) (simp_all add: option.map_comp comp_def)

lemma row_standardize:
  assumes "wf_table df" "i < nrows df"
  shows "row (standardize_data_types df) i = map (map_option strip_cell) (row df i)"
proof -
  have "column_cells (case c of Object xs \<Rightarrow> Object (map (map_option strip) xs) | Numeric xs \<Rightarrow> c) ! i
      = map_option strip_cell (column_cells c ! i)" if "(name, c) \<in> set df" for name c
  proof -
    from assms that have "i < length (column_cells c)"
      by (auto simp: wf_table_def list_all_iff column_len_def)
    then show ?thesis by (simp add: column_cells_strip)
  qed
  then show ?thesis
    by (auto simp: row_def standardize_data_types_def)
qed

lemma rows_standardize:
  assumes "wf_table df"
  shows "rows (standardize_data_types df) = map (map (map_option strip_cell)) (rows df)"
  unfolding rows_def nrows_standardize_data_types
  by (simp add: row_standardize [OF assms])

lemma trims_apart_cells:
  assumes "trims_apart c" "a \<in> set (column_cells c)" "b \<in> set (column_cells c)"
    and "map_option strip_cell a = map_option strip_cell b"
  shows "a = b"
proof (cases c)
  case (Numeric xs)
  with assms(2,3) obtain x y where "a = map_option Num x" "b = map_option Num y" by auto
  with assms(4) show ?thesis by (cases x; cases y) simp_all
next
  case (Object xs)
  with assms(2,3) obtain x y where xy: "x \<in> set xs" "y \<in> set xs"
    "a = map_option Str x" "b = map_option Str y" by auto
  from assms(1) have inj: "inj_on strip (set (present xs))"
    by (simp add: Object trims_apart_Object del: trims_apart.simps)
  show ?thesis
  proof (cases x)
    case None
    with assms(4) xy show ?thesis by (cases y) simp_all
  next
    case x: (Some u)
    show ?thesis
    proof (cases y)
      case None
      with assms(4) xy x show ?thesis by simp
    next
      case y: (Some v)
      from xy x y have "u \<in> set (present xs)" "v \<in> set (present xs)"
        by (simp_all add: set_present)
      moreover from assms(4) xy x y have "strip u = strip v" by simp
      ultimately have "u = v" using inj by (simp add: inj_on_def)
      with xy x y show ?thesis by simp
    qed
  qed
qed

lemma row_cells:
  assumes "wf_table df" "i < nrows df" "p < length df"
  shows "row df i ! p \<in> set (column_cells (snd (df ! p)))"
proof -
  from assms(1,3) have "column_len (snd (df ! p)) = nrows df"
    by (auto simp: wf_table_def list_all_iff case_prod_beta)
  with assms(2) have "column_cells (snd (df ! p)) ! i \<in> set (column_cells (snd (df ! p)))"
    by (simp add: column_len_def)
  then show ?thesis using assms(3) by (simp add: row_def case_prod_beta)
qed

lemma distinct_rows_standardize:
  assumes wf: "wf_table df" and ti: "trimming_injective df" and d: "distinct (rows df)"
  shows "distinct (rows (standardize_data_types df))"
proof -
  have "inj_on (map (map_option strip_cell)) (set (rows df))"
  proof (rule inj_onI)
    fix r1 r2
    assume r1: "r1 \<in> set (rows df)" and r2: "r2 \<in> set (rows df)"
      and eq: "map (map_option strip_cell) r1 = map (map_option strip_cell) r2"
    from r1 obtain i where i: "i < nrows df" "r1 = row df i" by (auto simp: rows_def)
    from r2 obtain j where j: "j < nrows df" "r2 = row df j" by (auto simp: rows_def)
    have len: "length r1 = length df" "length r2 = length df" by (simp_all add: i j row_def)
    show "r1 = r2"
    proof (rule nth_equalityI)
      show "length r1 = length r2" by (simp add: len)
      fix p assume p: "p < length r1"
      then have pl: "p < length df" by (simp add: len)
      from ti pl have ta: "trims_apart (snd (df ! p))"
        by (auto simp: trimming_injective_def list_all_iff case_prod_beta)
      from eq have "map (map_option strip_cell) r1 ! p = map (map_option strip_cell) r2 ! p"
        by simp
      then have "map_option strip_cell (r1 ! p) = map_option strip_cell (r2 ! p)"
        using p len by simp
      with ta row_cells [OF wf i(1) pl] row_cells [OF wf j(1) pl]
      show "r1 ! p = r2 ! p" unfolding i j by (rule trims_apart_cells)
    qed
  qed
  with d show ?thesis by (simp add: rows_standardize [OF wf] distinct_map)
qed

lemma distinct_rows_clean_table:
  assumes "wf_table df" "missing_count df = 0" "trimming_injective df"
  shows "distinct (rows (fst (clean_table df)))"
proof -
  let ?t = "remove_duplicates df"
  have "handle_missing_values ?t = ?t"
    using missing_count_remove_duplicates [OF assms(1,2)]
    by (simp add: handle_missing_values_def)
  then have c: "fst (clean_table df) = standardize_data_types ?t"
    by (simp add: clean_table_def Let_def)
  have "distinct (rows ?t)"
    by (simp add: rows_remove_duplicates [OF assms(1)] distinct_first_occurrences)
  with wf_table_remove_duplicates [OF assms(1)]
    trimming_injective_remove_duplicates [OF assms(1,3)]
  show ?thesis unfolding c by (rule distinct_rows_standardize)
qed

lemma no_missing_no_absent_column:
  assumes "missing_count df = 0"
  shows "no_absent_numeric_column df"
  unfolding no_absent_numeric_column_def list_all_iff
proof (intro ballI)
  fix nc assume nc: "nc \<in> set df"
  obtain name c where e: "nc = (name, c)" by (cases nc)
  from assms nc e have n: "\<not> isnull_any c" unfolding missing_count_0_iff by blast
  have "not_all_absent c"
  proof (cases c)
    case (Numeric xs)
    show ?thesis
    proof (cases xs)
      case Nil
      then show ?thesis by (simp add: Numeric)
    next
      case (Cons x xs')
      with n Numeric obtain v where "x = Some v" by (cases x) (auto simp: isnull_any_def)
      with Cons have "v \<in> set (present xs)" by (simp add: set_present)
      then show ?thesis by (auto simp: Numeric)
    qed
  next
    case (Object xs)
    then show ?thesis by simp
  qed
  then show "case nc of (name, c) \<Rightarrow> not_all_absent c" by (simp add: e)
qed

lemma write_file_lookup:
  "write_file fs p content = Inr fs' \<Longrightarrow> lookup fs' p = Some (File content)"
  by (auto simp: write_file_def lookup_def update_conv' split: if_splits option.splits node.splits)

lemma clean_csv_success:
  assumes "lookup fs p = Some (File content)"
    and "read_csv content = Some df"
    and "c_stats (clean_csv read_csv to_csv fs p out) \<noteq> []"
  shows "c_stats (clean_csv read_csv to_csv fs p out) = snd (clean_table df)
    \<and> lookup (c_fs (clean_csv read_csv to_csv fs p out)) out
        = Some (File (to_csv (fst (clean_table df))))"
proof -
  obtain dfc stats where ct: "clean_table df = (dfc, stats)" by (cases "clean_table df")
  have ok: "path_exists fs p" "is_file fs p"
    using assms(1) by (simp_all add: path_exists_def is_file_def)
  show ?thesis
  proof (cases "ensure_directory fs (path_parent out)")
    case (Inl e)
    with assms ok ct show ?thesis by (simp add: clean_csv_def)
  next
    case (Inr fs1)
    show ?thesis
    proof (cases "write_file fs1 out (to_csv dfc)")
      case (Inl e)
      with assms ok ct Inr show ?thesis by (simp add: clean_csv_def)
    next
      case w: (Inr fs2)
      from write_file_lookup [OF w] assms(1,2) ok ct Inr w show ?thesis
        by (simp add: clean_csv_def)
    qed
  qed
qed

lemma clean_table_of_clean:
  assumes "missing_count c = 0" "distinct (rows c)"
  shows "stat (snd (clean_table c)) ''duplicate_rows_found'' = Some 0
   \<and> stat (snd (clean_table c)) ''missing_values_found'' = Some 0
   \<and> stat (snd (clean_table c)) ''rows_removed'' = Some 0
   \<and> handle_missing_values (remove_duplicates c) = c"
proof -
  have d: "duplicated_count c = 0" by (rule duplicated_count_distinct [OF assms(2)])
  have "nrows (fst (clean_table c)) = nrows c"
    using nrows_clean_table [of c] d by simp
  then have "stat (snd (clean_table c)) ''rows_removed'' = Some 0"
    by (simp add: clean_table_stats)
  moreover have "handle_missing_values (remove_duplicates c) = c"
    using assms(1) d by (simp add: remove_duplicates_def handle_missing_values_def)
  ultimately show ?thesis
    using assms(1) d by (simp add: clean_table_stats)
qed

text \<open>
  Claim C8, amended. Let \<open>clean_csv\<close> succeed on a file holding a table, let the file it
  wrote load back as the cleaned table, and let \<open>clean_csv\<close> succeed on that file. If no
  numeric column of the table is entirely absent, the second run finds no missing value.
  If the table has no absent cell and trimming makes no two distinct text values of a
  column equal, the second run finds no duplicate row and no missing value, removes no
  row and imputes nothing.
\<close>

theorem clean_csv_second_pass:
  assumes "lookup fs file_path = Some (File content)"
    and "read_csv content = Some df"
    and "wf_table df"
    and "c_stats (clean_csv read_csv to_csv fs file_path output_path) \<noteq> []"
    and "read_csv (to_csv (fst (clean_table df))) = Some (fst (clean_table df))"
    and "c_stats (clean_twice read_csv to_csv fs file_path output_path output_path') \<noteq> []"
  shows "c_stats (clean_twice read_csv to_csv fs file_path output_path output_path')
         = snd (clean_table (fst (clean_table df)))
   \<and> (no_absent_numeric_column df \<longrightarrow>
        stat (c_stats (clean_twice read_csv to_csv fs file_path output_path output_path'))
          ''missing_values_found'' = Some 0)
   \<and> (missing_count df = 0 \<and> trimming_injective df \<longrightarrow>
        stat (c_stats (clean_twice read_csv to_csv fs file_path output_path output_path'))
          ''duplicate_rows_found'' = Some 0
        \<and> stat (c_stats (clean_twice read_csv to_csv fs file_path output_path output_path'))
          ''missing_values_found'' = Some 0
        \<and> stat (c_stats (clean_twice read_csv to_csv fs file_path output_path output_path'))
          ''rows_removed'' = Some 0
        \<and> handle_missing_values (remove_duplicates (fst (clean_table df))) = fst (clean_table df))"
proof -
  let ?r1 = "clean_csv read_csv to_csv fs file_path output_path"
  let ?r2 = "clean_twice read_csv to_csv fs file_path output_path output_path'"
  let ?c = "fst (clean_table df)"
  from clean_csv_success [OF assms(1,2,4)]
  have written: "lookup (c_fs ?r1) output_path = Some (File (to_csv ?c))" by simp
  from clean_csv_success [OF written assms(5) assms(6) [unfolded clean_twice_def]]
  have s2: "c_stats ?r2 = snd (clean_table ?c)" by (simp add: clean_twice_def)
  have p1: "stat (snd (clean_table ?c)) ''missing_values_found'' = Some 0"
    if "no_absent_numeric_column df"
    using missing_count_clean_table [OF assms(3) that] by (simp add: clean_table_stats)
  have p2: "stat (snd (clean_table ?c)) ''duplicate_rows_found'' = Some 0
        \<and> stat (snd (clean_table ?c)) ''missing_values_found'' = Some 0
        \<and> stat (snd (clean_table ?c)) ''rows_removed'' = Some 0
        \<and> handle_missing_values (remove_duplicates ?c) = ?c"
    if h: "missing_count df = 0 \<and> trimming_injective df"
  proof -
    from h have m: "missing_count ?c = 0"
      using missing_count_clean_table [OF assms(3)] no_missing_no_absent_column by blast
    from h have d: "distinct (rows ?c)"
      using distinct_rows_clean_table [OF assms(3)] by blast
    from m d show ?thesis by (rule clean_table_of_clean)
  qed
  from s2 p1 p2 show ?thesis by simp
qed

theorem clean_csv_second_pass_witness:
  "stat (c_stats (clean_csv Some (\<lambda>t. t) csv_fs [''data'', ''survey.csv''] [''data'', ''survey_clean.csv'']))
     ''missing_values_found'' = Some 1
   \<and> stat (c_stats (clean_twice Some (\<lambda>t. t) csv_fs [''data'', ''survey.csv'']
        [''data'', ''survey_clean.csv''] [''data'', ''survey_twice.csv''])) ''missing_values_found'' = Some 0
   \<and> stat (c_stats (clean_csv Some (\<lambda>t. t) csv_fs [''data'', ''plain.csv''] [''data'', ''plain_clean.csv'']))
     ''duplicate_rows_found'' = Some 1
   \<and> stat (c_stats (clean_twice Some (\<lambda>t. t) csv_fs [''data'', ''plain.csv'']
        [''data'', ''plain_clean.csv''] [''data'', ''plain_twice.csv''])) ''duplicate_rows_found'' = Some 0
   \<and> stat (c_stats (clean_twice Some (\<lambda>t. t) csv_fs [''data'', ''plain.csv'']
        [''data'', ''plain_clean.csv''] [''data'', ''plain_twice.csv''])) ''missing_values_found'' = Some 0
   \<and> stat (c_stats (clean_twice Some (\<lambda>t. t) csv_fs [''data'', ''plain.csv'']
        [''data'', ''plain_clean.csv''] [''data'', ''plain_twice.csv''])) ''rows_removed'' = Some 0"
proof -
  have first:
    "stat (c_stats (clean_csv Some (\<lambda>t. t) csv_fs [''data'', ''survey.csv''] [''data'', ''survey_clean.csv'']))
       ''missing_values_found'' = Some 1"
    "stat (c_stats (clean_csv Some (\<lambda>t. t) csv_fs [''data'', ''plain.csv''] [''data'', ''plain_clean.csv'']))
       ''duplicate_rows_found'' = Some 1"
    by code_simp+
  have s1: "lookup csv_fs [''data'', ''survey.csv''] = Some (File survey_table)"
    by code_simp
  have s2: "Some survey_table = Some survey_table" by simp
  have s3: "wf_table survey_table" by code_simp
  have s4: "c_stats (clean_csv Some (\<lambda>t. t) csv_fs [''data'', ''survey.csv'']
        [''data'', ''survey_clean.csv'']) \<noteq> []"
    by code_simp
  have s5: "Some ((\<lambda>t. t) (fst (clean_table survey_table))) = Some (fst (clean_table survey_table))"
    by simp
  have s6: "c_stats (clean_twice Some (\<lambda>t. t) csv_fs [''data'', ''survey.csv'']
        [''data'', ''survey_clean.csv''] [''data'', ''survey_twice.csv'']) \<noteq> []"
    by code_simp
  have p1: "lookup csv_fs [''data'', ''plain.csv''] = Some (File plain_table)"
    by code_simp
  have p2: "Some plain_table = Some plain_table" by simp
  have p3: "wf_table plain_table" by code_simp
  have p4: "c_stats (clean_csv Some (\<lambda>t. t) csv_fs [''data'', ''plain.csv'']
        [''data'', ''plain_clean.csv'']) \<noteq> []"
    by code_simp
  have p5: "Some ((\<lambda>t. t) (fst (clean_table plain_table))) = Some (fst (clean_table plain_table))"
    by simp
  have p6: "c_stats (clean_twice Some (\<lambda>t. t) csv_fs [''data'', ''plain.csv'']
        [''data'', ''plain_clean.csv''] [''data'', ''plain_twice.csv'']) \<noteq> []"
    by code_simp
  have hs: "no_absent_numeric_column survey_table" by code_simp
  have hp: "missing_count plain_table = 0 \<and> trimming_injective plain_table" by code_simp
  from clean_csv_second_pass [of csv_fs _ survey_table Some survey_table "\<lambda>t. t",
      OF s1 s2 s3 s4 s5 s6] hs
    clean_csv_second_pass [of csv_fs _ plain_table Some plain_table "\<lambda>t. t",
      OF p1 p2 p3 p4 p5 p6] hp first
  show ?thesis by blast
qed

text \<open>
  Claim C8 as stated fails: trimming makes the rows \<open>(x , NaN)\<close> and \<open>(x, NaN)\<close> equal
  after deduplication has run, and a numeric column without a present value stays absent,
  so the second pass finds one duplicate and two missing values and removes a row, also
  when the cleaned file loads back unchanged.
\<close>

theorem clean_table_second_pass_finds_work:
  "stat (snd (clean_table (fst (clean_table padded_table)))) ''duplicate_rows_found'' = Some 1
   \<and> stat (snd (clean_table (fst (clean_table padded_table)))) ''missing_values_found'' = Some 2
   \<and> stat (snd (clean_table (fst (clean_table padded_table)))) ''rows_removed'' = Some 1
   \<and> c_stats (clean_twice Some (\<lambda>t. t) csv_fs [''data'', ''padded.csv'']
        [''data'', ''padded_clean.csv''] [''data'', ''padded_twice.csv''])
      = snd (clean_table (fst (clean_table padded_table)))"
  by code_simp

section \<open>Properties of the organizer: the postcondition\<close>

lemma joinpath_neq_self [simp]: "joinpath d n \<noteq> d" "d \<noteq> joinpath d n"
  by (simp_all add: joinpath_def)

lemma length_joinpath [simp]: "length (joinpath d n) = Suc (length d)"
  by (simp add: joinpath_def)

lemma in_directory_joinpath: "p \<noteq> [] \<Longrightarrow> path_parent p = d \<Longrightarrow> p = joinpath d (path_name p)"
  by (auto simp: joinpath_def path_parent_def path_name_def)






lemma moves_of_append [simp]: "moves_of (a @ b) = moves_of a @ moves_of b"
  by (induction a rule: moves_of.induct) simp_all













lemma moves_of_log_statistics [simp]: "moves_of (log_statistics stats) = []"
proof -
  have "moves_of (map (\<lambda>(category, count). Info_category_count category count) xs) = []" for xs
    by (induction xs) auto
  then show ?thesis by (simp add: log_statistics_def)
qed





end
